theory Spec2Isabelle
  imports Main "HOL-Library.Word"
begin

section \<open>Python built-ins used by the event store\<close>

text \<open>
  The embedding follows \<^verbatim>\<open>src/Calendar/Calendar_demo.py\<close>. A byte is an 8-bit word, a
  Python \<^verbatim>\<open>int\<close> is an \<open>int\<close>, and a Python \<^verbatim>\<open>str\<close> is the list of its code
  points. The scripts are written for MicroPython. The built-ins \<^verbatim>\<open>int.from_bytes\<close>,
  \<^verbatim>\<open>str.encode('utf-8')\<close> and \<^verbatim>\<open>bytes.decode('utf-8')\<close> are given the meaning of the
  Python language reference: the UTF-8 encoder raises on a code point that is no Unicode
  scalar value, and the strict decoder raises a ValueError on malformed, overlong or
  surrogate sequences. What \<^verbatim>\<open>int.to_bytes\<close> does with a value that does not fit is
  left to the runtime, see \<open>to_bytes_big\<close>.
\<close>

type_synonym byte = "8 word"

type_synonym pystr = "nat list"

datatype exn = OverflowError | UnicodeEncodeError | AttributeError | OSError

definition py :: "string \<Rightarrow> pystr" where
  "py s = map of_char s"

definition byte_of :: "nat \<Rightarrow> byte" where
  "byte_of n = of_nat n"

fun be_bytes :: "nat \<Rightarrow> int \<Rightarrow> byte list" where
  "be_bytes 0 x = []"
| "be_bytes (Suc n) x = be_bytes n (x div 256) @ [word_of_int x]"

text \<open>
  \<^verbatim>\<open>x.to_bytes(n, 'big')\<close>. For \<open>x\<close> in \<open>[0, 256^n)\<close> every Python runtime returns
  the \<open>n\<close> big-endian bytes of \<open>x\<close>. Outside that range the runtimes differ: CPython
  raises OverflowError; MicroPython writes a negative value in two's complement, and
  for a value that is too large it truncates or raises OverflowError, depending on its
  version. The answer of the runtime outside the range is therefore a parameter \<open>rt\<close> of
  the model, and of every function that serialises an integer.
\<close>

type_synonym runtime = "int \<Rightarrow> nat \<Rightarrow> exn + byte list"

definition to_bytes_big :: "runtime \<Rightarrow> int \<Rightarrow> nat \<Rightarrow> exn + byte list" where
  "to_bytes_big rt x n =
     (if 0 \<le> x \<and> x < 256 ^ n then Inr (be_bytes n x) else rt x n)"


definition wrapping :: runtime where
  "wrapping x n = Inr (be_bytes n x)"

text \<open>\<^verbatim>\<open>int.from_bytes(bs, 'big')\<close>\<close>

definition from_bytes_big :: "byte list \<Rightarrow> int" where
  "from_bytes_big bs = foldl (\<lambda>acc b. acc * 256 + uint b) 0 bs"

definition is_scalar :: "nat \<Rightarrow> bool" where
  "is_scalar c = (c < 0xD800 \<or> (0xE000 \<le> c \<and> c < 0x110000))"

definition utf8_cp :: "nat \<Rightarrow> byte list" where
  "utf8_cp c =
     (if c < 0x80 then [byte_of c]
      else if c < 0x800 then [byte_of (0xC0 + c div 64), byte_of (0x80 + c mod 64)]
      else if c < 0x10000 then
        [byte_of (0xE0 + c div 4096), byte_of (0x80 + c div 64 mod 64),
         byte_of (0x80 + c mod 64)]
      else
        [byte_of (0xF0 + c div 262144), byte_of (0x80 + c div 4096 mod 64),
         byte_of (0x80 + c div 64 mod 64), byte_of (0x80 + c mod 64)])"

text \<open>\<^verbatim>\<open>s.encode('utf-8')\<close>\<close>

fun str_encode :: "pystr \<Rightarrow> exn + byte list" where
  "str_encode [] = Inr []"
| "str_encode (c # cs) =
     (if is_scalar c
      then (case str_encode cs of Inl e \<Rightarrow> Inl e | Inr bs \<Rightarrow> Inr (utf8_cp c @ bs))
      else Inl UnicodeEncodeError)"

definition cont :: "byte \<Rightarrow> bool" where
  "cont b = (0x80 \<le> unat b \<and> unat b < 0xC0)"

text \<open>\<^verbatim>\<open>bs.decode('utf-8')\<close>; \<open>None\<close> is the ValueError that the callers catch.\<close>

fun bytes_decode :: "byte list \<Rightarrow> pystr option" where
  "bytes_decode [] = Some []"
| "bytes_decode (b # bs) =
     (let n = unat b in
      if n < 0x80 then map_option (Cons n) (bytes_decode bs)
      else if n < 0xC2 then None
      else if n < 0xE0 then
        (case bs of
           b1 # r \<Rightarrow>
             if cont b1
             then map_option (Cons ((n - 0xC0) * 64 + (unat b1 - 0x80))) (bytes_decode r)
             else None
         | _ \<Rightarrow> None)
      else if n < 0xF0 then
        (case bs of
           b1 # b2 # r \<Rightarrow>
             (let c = (n - 0xE0) * 4096 + (unat b1 - 0x80) * 64 + (unat b2 - 0x80) in
              if cont b1 \<and> cont b2 \<and> 0x800 \<le> c \<and> is_scalar c
              then map_option (Cons c) (bytes_decode r)
              else None)
         | _ \<Rightarrow> None)
      else if n < 0xF5 then
        (case bs of
           b1 # b2 # b3 # r \<Rightarrow>
             (let c = (n - 0xF0) * 262144 + (unat b1 - 0x80) * 4096
                      + (unat b2 - 0x80) * 64 + (unat b3 - 0x80) in
              if cont b1 \<and> cont b2 \<and> cont b3 \<and> 0x10000 \<le> c \<and> c < 0x110000
              then map_option (Cons c) (bytes_decode r)
              else None)
         | _ \<Rightarrow> None)
      else None)"

section \<open>Events, console output and the I2C bus\<close>

text \<open>\<^verbatim>\<open>class Event\<close>\<close>

record event =
  event_name :: pystr
  start_time :: int
  end_time :: int
  speaker_name :: pystr
  description :: pystr

text \<open>
  Every \<^verbatim>\<open>print\<close> call of the modelled functions is one constructor, carrying the values
  the message interpolates. \<open>EventDetails\<close> stands for the six consecutive prints of one
  listed event in \<^verbatim>\<open>list_all_events\<close>; its number is the printed \<^verbatim>\<open>i + 1\<close>.
\<close>

datatype msg =
    FailedToWrite
  | BytesWritten
  | FailedToRead
  | FailedToDecode
  | FailedToReadBytes nat nat
  | NameTooLong
  | SpeakerTooLong
  | DescriptionTooLong
  | SizeExceeds nat
  | EventSaved
  | VerificationSuccessful
  | VerificationFailed
  | LoadingEvent nat
  | FailedNameLength
  | NameLength nat
  | SlotEmpty nat
  | InvalidNameLength nat nat
  | InvalidName nat
  | FailedStartTime
  | StartTime int
  | FailedEndTime
  | EndTime int
  | FailedSpeakerLength
  | SpeakerLength nat
  | SpeakerEmpty nat
  | InvalidSpeakerLength nat nat
  | InvalidSpeaker nat
  | FailedDescriptionLength
  | DescriptionLength int
  | DescriptionEmpty nat
  | InvalidDescriptionLength int nat
  | InvalidDescription nat
  | EventLoaded
  | ListingAll
  | Checking nat nat
  | EventDetails nat event
  | NoValidData nat
  | WipeWarning
  | WipeCanceled
  | Wiping
  | Wiped nat nat
  | WipedOK
  | VerifyMismatch nat "byte list"
  | VerifyAllWiped
  | VerifySomeNotWiped

text \<open>
  The module-level \<^verbatim>\<open>i2c\<close> object with the EEPROM behind it, and the console. The device
  is a byte-addressable memory; \<open>write_fails k\<close> and \<open>read_fails k\<close> say whether the
  \<open>k\<close>-th write and the \<open>k\<close>-th read on the bus raise OSError. Every attempted bus
  transfer is logged. \<^verbatim>\<open>time.sleep_ms\<close> changes nothing that is modelled.
\<close>

record bus =
  mem :: "nat \<Rightarrow> byte"
  write_fails :: "nat \<Rightarrow> bool"
  read_fails :: "nat \<Rightarrow> bool"
  writes :: "(nat \<times> byte list) list"
  reads :: "(nat \<times> nat) list"
  printed :: "msg list"

definition PAGE_SIZE :: nat where
  "PAGE_SIZE = 32"

definition EEPROM_SIZE :: nat where
  "EEPROM_SIZE = 4096"

definition print :: "msg \<Rightarrow> bus \<Rightarrow> bus" where
  "print m s = s\<lparr>printed := printed s @ [m]\<rparr>"

text \<open>\<^verbatim>\<open>i2c.writeto_mem(EEPROM_I2C_ADDR, address, chunk, addrsize=16)\<close>\<close>

definition writeto_mem :: "nat \<Rightarrow> byte list \<Rightarrow> bus \<Rightarrow> (exn + unit) \<times> bus" where
  "writeto_mem address chunk s =
     (let s' = s\<lparr>writes := writes s @ [(address, chunk)]\<rparr> in
      if write_fails s (length (writes s)) then (Inl OSError, s')
      else (Inr (),
            s'\<lparr>mem := (\<lambda>a. if address \<le> a \<and> a < address + length chunk
                            then chunk ! (a - address) else mem s a)\<rparr>))"

text \<open>\<^verbatim>\<open>i2c.readfrom_mem(EEPROM_I2C_ADDR, address, length, addrsize=16)\<close>\<close>

definition readfrom_mem :: "nat \<Rightarrow> nat \<Rightarrow> bus \<Rightarrow> (exn + byte list) \<times> bus" where
  "readfrom_mem address len s =
     (let s' = s\<lparr>reads := reads s @ [(address, len)]\<rparr> in
      if read_fails s (length (reads s)) then (Inl OSError, s')
      else (Inr (map (mem s) [address..<address + len]), s'))"

section \<open>EEPROM read and write functions\<close>

text \<open>The \<^verbatim>\<open>while data:\<close> loop of \<^verbatim>\<open>write_bytes_to_eeprom\<close>.\<close>

function write_chunks :: "nat \<Rightarrow> byte list \<Rightarrow> bus \<Rightarrow> bus" where
  "write_chunks address data s =
     (if data = [] then s
      else
        (let chunk = take PAGE_SIZE data; data' = drop PAGE_SIZE data in
         case writeto_mem address chunk s of
           (Inl e, s') \<Rightarrow> print FailedToWrite s'
         | (Inr u, s') \<Rightarrow> write_chunks (address + length chunk) data' s'))"
  by pat_completeness auto
termination
  by (relation "measure (\<lambda>(address, data, s). length data)") (auto simp: PAGE_SIZE_def)

definition write_bytes_to_eeprom :: "nat \<Rightarrow> byte list \<Rightarrow> bus \<Rightarrow> bus" where
  "write_bytes_to_eeprom address data s = print BytesWritten (write_chunks address data s)"

definition read_bytes_from_eeprom :: "nat \<Rightarrow> nat \<Rightarrow> bus \<Rightarrow> byte list option \<times> bus" where
  "read_bytes_from_eeprom address len s =
     (case readfrom_mem address len s of
        (Inl e, s') \<Rightarrow> (None, print FailedToRead s')
      | (Inr data, s') \<Rightarrow> (Some data, s'))"

definition read_string_from_eeprom :: "nat \<Rightarrow> nat \<Rightarrow> bus \<Rightarrow> pystr option \<times> bus" where
  "read_string_from_eeprom address len s =
     (case read_bytes_from_eeprom address len s of
        (Some data, s') \<Rightarrow>
          if length data = len
          then (case bytes_decode data of
                  Some string \<Rightarrow> (Some string, s')
                | None \<Rightarrow> (None, print FailedToDecode s'))
          else (None, print (FailedToReadBytes len address) s')
      | (None, s') \<Rightarrow> (None, print (FailedToReadBytes len address) s'))"

section \<open>Event management\<close>

text \<open>
  Lines 443 to 478 of \<^verbatim>\<open>save_event_to_eeprom\<close>, which build the bytearray \<^verbatim>\<open>data\<close>
  without touching the bus: they raise, or print one message and return, or fall through
  to the write with \<^verbatim>\<open>data\<close> complete.
\<close>

datatype serialized = Raised exn | Rejected msg | Encoded "byte list"

definition serialize_event :: "runtime \<Rightarrow> event \<Rightarrow> serialized" where
  "serialize_event rt ev =
     (case str_encode (event_name ev) of
        Inl e \<Rightarrow> Raised e
      | Inr event_name_bytes \<Rightarrow>
     if length event_name_bytes > 50 then Rejected NameTooLong
     else
       (let data = byte_of (length event_name_bytes) # event_name_bytes in
        case to_bytes_big rt (start_time ev) 4 of
          Inl e \<Rightarrow> Raised e
        | Inr start_bytes \<Rightarrow>
       (let data = data @ start_bytes in
        case to_bytes_big rt (end_time ev) 4 of
          Inl e \<Rightarrow> Raised e
        | Inr end_bytes \<Rightarrow>
       (let data = data @ end_bytes in
        case str_encode (speaker_name ev) of
          Inl e \<Rightarrow> Raised e
        | Inr speaker_name_bytes \<Rightarrow>
       if length speaker_name_bytes > 50 then Rejected SpeakerTooLong
       else
         (let data = data @ byte_of (length speaker_name_bytes) # speaker_name_bytes in
          case str_encode (description ev) of
            Inl e \<Rightarrow> Raised e
          | Inr description_bytes \<Rightarrow>
         if length description_bytes > 138 then Rejected DescriptionTooLong
         else
           (case to_bytes_big rt (int (length description_bytes)) 2 of
              Inl e \<Rightarrow> Raised e
            | Inr length_bytes \<Rightarrow>
           (let data = data @ length_bytes @ description_bytes in
            if length data > 250 then Rejected (SizeExceeds (length data))
            else Encoded data)))))))"

definition save_event_to_eeprom ::
  "runtime \<Rightarrow> event \<Rightarrow> nat \<Rightarrow> bus \<Rightarrow> (exn + unit) \<times> bus" where
  "save_event_to_eeprom rt ev address s =
     (case serialize_event rt ev of
        Raised e \<Rightarrow> (Inl e, s)
      | Rejected m \<Rightarrow> (Inr (), print m s)
      | Encoded data \<Rightarrow>
          (let s1 = write_bytes_to_eeprom address data s;
               s2 = print EventSaved s1
           in case read_bytes_from_eeprom address (length data) s2 of
                (verification_data, s3) \<Rightarrow>
                  if verification_data = Some data
                  then (Inr (), print VerificationSuccessful s3)
                  else (Inr (), print VerificationFailed s3)))"

text \<open>
  \<^verbatim>\<open>load_event_from_eeprom\<close>. A successful bus read returns exactly the number of bytes
  asked for, so \<^verbatim>\<open>event_name_length_bytes[0]\<close> is the first of one byte.
\<close>

definition load_event_from_eeprom :: "nat \<Rightarrow> bus \<Rightarrow> event option \<times> bus" where
  "load_event_from_eeprom address s =
     (case read_bytes_from_eeprom address 1 (print (LoadingEvent address) s) of
        (None, s) \<Rightarrow> (None, print FailedNameLength s)
      | (Some event_name_length_bytes, s) \<Rightarrow>
     (let event_name_length = unat (event_name_length_bytes ! 0);
          s = print (NameLength event_name_length) s
      in
     if event_name_length = 0xFF then (None, print (SlotEmpty address) s)
     else if event_name_length = 0 \<or> event_name_length > 50
     then (None, print (InvalidNameLength event_name_length address) s)
     else
     (let address = address + 1 in
      case read_string_from_eeprom address event_name_length s of
        (None, s) \<Rightarrow> (None, print (InvalidName address) s)
      | (Some event_name', s) \<Rightarrow>
     (let address = address + event_name_length in
      case read_bytes_from_eeprom address 4 s of
        (None, s) \<Rightarrow> (None, print FailedStartTime s)
      | (Some start_time_bytes, s) \<Rightarrow>
     if length start_time_bytes \<noteq> 4 then (None, print FailedStartTime s)
     else
     (let start_time' = from_bytes_big start_time_bytes;
          s = print (StartTime start_time') s;
          address = address + 4
      in
      case read_bytes_from_eeprom address 4 s of
        (None, s) \<Rightarrow> (None, print FailedEndTime s)
      | (Some end_time_bytes, s) \<Rightarrow>
     if length end_time_bytes \<noteq> 4 then (None, print FailedEndTime s)
     else
     (let end_time' = from_bytes_big end_time_bytes;
          s = print (EndTime end_time') s;
          address = address + 4
      in
      case read_bytes_from_eeprom address 1 s of
        (None, s) \<Rightarrow> (None, print FailedSpeakerLength s)
      | (Some speaker_name_length_bytes, s) \<Rightarrow>
     (let speaker_name_length = unat (speaker_name_length_bytes ! 0);
          s = print (SpeakerLength speaker_name_length) s
      in
     if speaker_name_length = 0xFF then (None, print (SpeakerEmpty address) s)
     else if speaker_name_length = 0 \<or> speaker_name_length > 50
     then (None, print (InvalidSpeakerLength speaker_name_length address) s)
     else
     (let address = address + 1 in
      case read_string_from_eeprom address speaker_name_length s of
        (None, s) \<Rightarrow> (None, print (InvalidSpeaker address) s)
      | (Some speaker_name', s) \<Rightarrow>
     (let address = address + speaker_name_length in
      case read_bytes_from_eeprom address 2 s of
        (None, s) \<Rightarrow> (None, print FailedDescriptionLength s)
      | (Some description_length_bytes, s) \<Rightarrow>
     if length description_length_bytes \<noteq> 2 then (None, print FailedDescriptionLength s)
     else
     (let description_length = from_bytes_big description_length_bytes;
          s = print (DescriptionLength description_length) s
      in
     if description_length = 0xFFFF then (None, print (DescriptionEmpty address) s)
     else if description_length = 0 \<or> description_length > 138
     then (None, print (InvalidDescriptionLength description_length address) s)
     else
     (let address = address + 2 in
      case read_string_from_eeprom address (nat description_length) s of
        (None, s) \<Rightarrow> (None, print (InvalidDescription address) s)
      | (Some description', s) \<Rightarrow>
          (Some \<lparr>event_name = event_name', start_time = start_time',
                 end_time = end_time', speaker_name = speaker_name',
                 description = description'\<rparr>,
           print EventLoaded s))))))))))))"

text \<open>\<^verbatim>\<open>list_all_events\<close>: the body of the \<^verbatim>\<open>for i in range(max_events)\<close> loop, and the loop.\<close>

definition list_step :: "nat \<Rightarrow> nat \<Rightarrow> bus \<Rightarrow> nat \<Rightarrow> bus" where
  "list_step start_address event_size s i =
     (let addr = start_address + i * event_size;
          s = print (Checking (i + 1) addr) s
      in case load_event_from_eeprom addr s of
           (Some ev, s) \<Rightarrow> print (EventDetails (i + 1) ev) s
         | (None, s) \<Rightarrow> print (NoValidData (i + 1)) s)"

definition list_all_events :: "nat \<Rightarrow> nat \<Rightarrow> nat \<Rightarrow> bus \<Rightarrow> bus" where
  "list_all_events start_address max_events event_size s =
     foldl (list_step start_address event_size) (print ListingAll s) [0..<max_events]"

section \<open>EEPROM management\<close>

text \<open>\<^verbatim>\<open>range(0, stop, step)\<close> for a positive step.\<close>

definition range_step :: "nat \<Rightarrow> nat \<Rightarrow> nat list" where
  "range_step stop step = map (\<lambda>j. j * step) [0..<(stop + step - 1) div step]"

text \<open>
  The body of the wiping loop. \<^verbatim>\<open>write_bytes_to_eeprom\<close> catches the OSError of the bus
  itself, so the \<^verbatim>\<open>except Exception\<close> around the call is never entered.
\<close>

definition wipe_step :: "bus \<Rightarrow> nat \<Rightarrow> bus" where
  "wipe_step s addr =
     (let remaining = EEPROM_SIZE - addr;
          chunk_size = (if remaining \<ge> PAGE_SIZE then PAGE_SIZE else remaining);
          chunk = replicate chunk_size (0xFF :: byte);
          s = write_bytes_to_eeprom addr chunk s
      in print (Wiped addr (addr + chunk_size - 1)) s)"

text \<open>
  The verification loop of \<^verbatim>\<open>wipe_eeprom\<close>. After a failed read \<^verbatim>\<open>data\<close> is \<^verbatim>\<open>None\<close>, and
  \<^verbatim>\<open>data.hex()\<close> raises AttributeError.
\<close>

fun verify_wiped :: "nat list \<Rightarrow> bool \<Rightarrow> bus \<Rightarrow> (exn + bool) \<times> bus" where
  "verify_wiped [] all_wiped s = (Inr all_wiped, s)"
| "verify_wiped (v_addr # rest) all_wiped s =
     (case read_bytes_from_eeprom v_addr 1 s of
        (data, s) \<Rightarrow>
          if data \<noteq> Some [0xFF]
          then (case data of
                  None \<Rightarrow> (Inl AttributeError, s)
                | Some d \<Rightarrow> verify_wiped rest False (print (VerifyMismatch v_addr d) s))
          else verify_wiped rest all_wiped s)"

definition verification_addresses :: "nat list" where
  "verification_addresses =
     [0, 250, 500, 750, 1000, 1250, 1500, 1750, 2000, 2250, 2500, 2750, 3000, 3250, 3500,
      3750, 4000]"

text \<open>
  \<^verbatim>\<open>wipe_eeprom\<close>; \<open>confirmation\<close> is the user's answer to the prompt after
  \<^verbatim>\<open>.strip().lower()\<close>.
\<close>

definition wipe_eeprom :: "string \<Rightarrow> bus \<Rightarrow> (exn + unit) \<times> bus" where
  "wipe_eeprom confirmation s =
     (let s = print WipeWarning s in
      if confirmation \<notin> set [''yes'', ''y''] then (Inr (), print WipeCanceled s)
      else
        (let s = print Wiping s;
             s = foldl wipe_step s (range_step EEPROM_SIZE PAGE_SIZE);
             s = print WipedOK s
         in case verify_wiped verification_addresses True s of
              (Inl e, s) \<Rightarrow> (Inl e, s)
            | (Inr all_wiped, s) \<Rightarrow>
                if all_wiped then (Inr (), print VerifyAllWiped s)
                else (Inr (), print VerifySomeNotWiped s)))"

section \<open>Notions used to state the properties\<close>

text \<open>
  The bus transfers that writing \<open>data\<close> at address \<open>a\<close> in pages amounts to, and
  the fact that the device holds \<open>data\<close> from address \<open>a\<close> on.
\<close>


definition chunks :: "nat \<Rightarrow> byte list \<Rightarrow> (nat \<times> byte list) list" where
  "chunks a data =
     map (\<lambda>i. (a + i * PAGE_SIZE, take PAGE_SIZE (drop (i * PAGE_SIZE) data)))
       [0..<(length data + PAGE_SIZE - 1) div PAGE_SIZE]"

definition holds :: "(nat \<Rightarrow> byte) \<Rightarrow> nat \<Rightarrow> byte list \<Rightarrow> bool" where
  "holds m a data = (map m [a..<a + length data] = data)"

text \<open>From this state on, no read (no write) on the bus raises OSError.\<close>

definition reads_succeed :: "bus \<Rightarrow> bool" where
  "reads_succeed s = (\<forall>k\<ge>length (reads s). \<not> read_fails s k)"

definition writes_succeed :: "bus \<Rightarrow> bool" where
  "writes_succeed s = (\<forall>k\<ge>length (writes s). \<not> write_fails s k)"

text \<open>The lines that \<^verbatim>\<open>list_all_events\<close> prints about the slots it visits.\<close>

definition is_report :: "msg \<Rightarrow> bool" where
  "is_report m =
     (case m of Checking n a \<Rightarrow> True | EventDetails n ev \<Rightarrow> True | NoValidData n \<Rightarrow> True
      | _ \<Rightarrow> False)"

text \<open>
  A step from \<open>s\<close> to \<open>s'\<close> that leaves the device, both failure schedules, the log of
  writes and the slot reports alone.
\<close>

definition quiet :: "bus \<Rightarrow> bus \<Rightarrow> bool" where
  "quiet s s' \<longleftrightarrow>
     mem s' = mem s \<and> writes s' = writes s \<and> write_fails s' = write_fails s \<and>
     read_fails s' = read_fails s \<and> length (reads s) \<le> length (reads s') \<and>
     filter is_report (printed s') = filter is_report (printed s)"


text \<open>Two states with the same device content on which reads succeed.\<close>

definition twin :: "bus \<Rightarrow> bus \<Rightarrow> bool" where
  "twin s s' \<longleftrightarrow> mem s' = mem s \<and> reads_succeed s \<and> reads_succeed s'"

text \<open>
  Concrete devices: an erased one on a bus that never fails, and one whose first bytes
  are \<open>data\<close> and whose other bytes are in the erased state.
\<close>

definition erased_bus :: bus where
  "erased_bus =
     \<lparr>mem = (\<lambda>a. 0xFF), write_fails = (\<lambda>k. False), read_fails = (\<lambda>k. False),
      writes = [], reads = [], printed = []\<rparr>"

definition bus_with :: "byte list \<Rightarrow> bus" where
  "bus_with data = erased_bus\<lparr>mem := (\<lambda>a. if a < length data then data ! a else 0xFF)\<rparr>"

text \<open>
  The event that \<^verbatim>\<open>main\<close> of \<^verbatim>\<open>CalendarReset.py\<close> saves, with the timestamps of the
  specification, and the bytes it is serialised to.
\<close>

definition ceremony :: event where
  "ceremony =
     \<lparr>event_name = py ''Ceremony'', start_time = 1730649600, end_time = 1730653200,
      speaker_name = py ''Elliot'', description = py ''Badges!''\<rparr>"

definition ceremony_bytes :: "byte list" where
  "ceremony_bytes =
     [8, 67, 101, 114, 101, 109, 111, 110, 121, 103, 39, 158, 0, 103, 39, 172, 16,
      6, 69, 108, 108, 105, 111, 116, 0, 7, 66, 97, 100, 103, 101, 115, 33]"

text \<open>
  Further events: one with an empty description, one with a name of 51 bytes and a
  negative start time, and one whose three texts have the greatest lengths allowed.
\<close>

definition empty_description :: event where
  "empty_description = ceremony\<lparr>description := []\<rparr>"

definition long_name :: event where
  "long_name = ceremony\<lparr>event_name := replicate 51 65, start_time := - 1\<rparr>"

definition full_event :: event where
  "full_event =
     \<lparr>event_name = replicate 50 65, start_time = 0, end_time = 4294967295,
      speaker_name = replicate 50 66, description = replicate 138 67\<rparr>"

text \<open>
  The bytes that \<open>full_event\<close> is serialised to, and a bus on which the second write,
  and only the second, fails.
\<close>

definition full_bytes :: "byte list" where
  "full_bytes =
     byte_of 50 # map byte_of (replicate 50 65) @ be_bytes 4 0 @ be_bytes 4 4294967295
     @ byte_of 50 # map byte_of (replicate 50 66) @ be_bytes 2 138
     @ map byte_of (replicate 138 67)"

definition flaky_bus :: bus where
  "flaky_bus = erased_bus\<lparr>write_fails := (\<lambda>k. k = 1)\<rparr>"

text \<open>The bytes that \<open>empty_description\<close> is serialised to.\<close>

definition empty_description_bytes :: "byte list" where
  "empty_description_bytes =
     [8, 67, 101, 114, 101, 109, 111, 110, 121, 103, 39, 158, 0, 103, 39, 172, 16,
      6, 69, 108, 108, 105, 111, 116, 0, 0]"

text \<open>
  What \<^verbatim>\<open>list_all_events\<close> reports for slot \<open>i\<close> of a device in state \<open>s\<close>: the line
  that announces the check, then the details of the loaded event or the line for a slot
  without valid data.
\<close>

definition slot_report :: "nat \<Rightarrow> nat \<Rightarrow> bus \<Rightarrow> nat \<Rightarrow> msg list" where
  "slot_report start_address event_size s i =
     [Checking (i + 1) (start_address + i * event_size),
      (case fst (load_event_from_eeprom (start_address + i * event_size) s) of
         Some ev \<Rightarrow> EventDetails (i + 1) ev
       | None \<Rightarrow> NoValidData (i + 1))]"

text \<open>An event within the bounds of the data model of the store.\<close>

definition valid_text :: "nat \<Rightarrow> nat \<Rightarrow> pystr \<Rightarrow> bool" where
  "valid_text lo hi cs =
     (case str_encode cs of Inl e \<Rightarrow> False | Inr bs \<Rightarrow> lo \<le> length bs \<and> length bs \<le> hi)"

definition valid_event :: "event \<Rightarrow> bool" where
  "valid_event ev \<longleftrightarrow>
     valid_text 1 50 (event_name ev) \<and> valid_text 1 50 (speaker_name ev) \<and>
     valid_text 1 138 (description ev) \<and>
     0 \<le> start_time ev \<and> start_time ev < 2 ^ 32 \<and> 0 \<le> end_time ev \<and> end_time ev < 2 ^ 32"

text \<open>A second event, different from \<open>ceremony\<close>.\<close>

definition closing :: event where
  "closing =
     \<lparr>event_name = py ''Closing'', start_time = 1730653200, end_time = 1730656800,
      speaker_name = py ''Al'', description = py ''Bye''\<rparr>"

section \<open>Lemmas about the built-ins\<close>


subsection \<open>Bytes and integers\<close>

lemma unat_byte_of: "n < 256 \<Longrightarrow> unat (byte_of n) = n"
  by (simp add: byte_of_def unat_of_nat)

lemma length_be_bytes: "length (be_bytes n x) = n"
  by (induction n arbitrary: x) simp_all

lemma from_bytes_big_snoc: "from_bytes_big (bs @ [b]) = from_bytes_big bs * 256 + uint b"
  by (simp add: from_bytes_big_def)

lemma from_bytes_be_bytes: "from_bytes_big (be_bytes n x) = x mod 256 ^ n"
proof (induction n arbitrary: x)
  case 0
  show ?case by (simp add: from_bytes_big_def)
next
  case (Suc n)
  have "uint (word_of_int x :: byte) = x mod 256"
    by (simp add: uint_word_of_int)
  then have "from_bytes_big (be_bytes (Suc n) x) = (x div 256) mod 256 ^ n * 256 + x mod 256"
    by (simp add: from_bytes_big_snoc Suc.IH)
  also have "\<dots> = x mod 256 ^ Suc n"
    by (simp add: zmod_zmult2_eq)
  finally show ?case .
qed

lemma to_bytes_big_ok:
  "0 \<le> x \<Longrightarrow> x < 256 ^ n \<Longrightarrow> to_bytes_big rt x n = Inr (be_bytes n x)"
  by (simp add: to_bytes_big_def)

lemma from_bytes_to_bytes:
  "0 \<le> x \<Longrightarrow> x < 256 ^ n \<Longrightarrow> from_bytes_big (be_bytes n x) = x"
  by (simp add: from_bytes_be_bytes)

subsection \<open>UTF-8\<close>

lemma split3: "(c::nat) div 4096 * 4096 + c div 64 mod 64 * 64 + c mod 64 = c"
proof -
  have a: "c div 4096 = c div 64 div 64"
    by (simp add: div_mult2_eq [symmetric])
  have q: "c div 64 div 64 * 64 + c div 64 mod 64 = c div 64"
    by (rule div_mult_mod_eq)
  have r: "c div 64 * 64 + c mod 64 = c"
    by (rule div_mult_mod_eq)
  show ?thesis
    unfolding a using q r by linarith
qed

lemma split4:
  "(c::nat) div 262144 * 262144 + c div 4096 mod 64 * 4096 + c div 64 mod 64 * 64 + c mod 64 = c"
proof -
  have a: "c div 262144 = c div 64 div 4096"
    by (simp add: div_mult2_eq [symmetric])
  have b: "c div 4096 = c div 64 div 64"
    by (simp add: div_mult2_eq [symmetric])
  have "c div 64 div 4096 * 4096 + c div 64 div 64 mod 64 * 64 + c div 64 mod 64 = c div 64"
    by (rule split3)
  then have "(c div 64 div 4096 * 4096 + c div 64 div 64 mod 64 * 64 + c div 64 mod 64) * 64
      + c mod 64 = c"
    by simp
  then show ?thesis
    unfolding a b by (simp add: algebra_simps)
qed

lemma decode2:
  assumes "2 \<le> a" "a < 32" "b < 64"
  shows "bytes_decode (byte_of (0xC0 + a) # byte_of (0x80 + b) # bs)
         = map_option (Cons (a * 64 + b)) (bytes_decode bs)"
  using assms by (simp add: unat_byte_of cont_def)

lemma decode3:
  assumes "a < 16" "b < 64" "d < 64" "0x800 \<le> a * 4096 + b * 64 + d"
    "is_scalar (a * 4096 + b * 64 + d)"
  shows "bytes_decode (byte_of (0xE0 + a) # byte_of (0x80 + b) # byte_of (0x80 + d) # bs)
         = map_option (Cons (a * 4096 + b * 64 + d)) (bytes_decode bs)"
  using assms by (simp add: unat_byte_of cont_def)

lemma decode4:
  assumes "a < 5" "b < 64" "d < 64" "e < 64" "0x10000 \<le> a * 262144 + b * 4096 + d * 64 + e"
    "a * 262144 + b * 4096 + d * 64 + e < 0x110000"
  shows "bytes_decode (byte_of (0xF0 + a) # byte_of (0x80 + b) # byte_of (0x80 + d)
           # byte_of (0x80 + e) # bs)
         = map_option (Cons (a * 262144 + b * 4096 + d * 64 + e)) (bytes_decode bs)"
  using assms by (simp add: unat_byte_of cont_def)


lemma bytes_decode_utf8_cp:
  assumes "is_scalar c"
  shows "bytes_decode (utf8_cp c @ bs) = map_option (Cons c) (bytes_decode bs)"
proof -
  consider "c < 0x80" | "0x80 \<le> c" "c < 0x800" | "0x800 \<le> c" "c < 0x10000"
    | "0x10000 \<le> c" "c < 0x110000"
    using assms unfolding is_scalar_def by linarith
  then show ?thesis
  proof cases
    case 1
    then show ?thesis by (simp add: utf8_cp_def unat_byte_of)
  next
    case 2
    then have u: "utf8_cp c = [byte_of (0xC0 + c div 64), byte_of (0x80 + c mod 64)]"
      by (simp add: utf8_cp_def)
    from 2 have l: "2 \<le> c div 64" "c div 64 < 32" "c mod 64 < 64" by simp_all
    have e: "c div 64 * 64 + c mod 64 = c" by simp
    show ?thesis
      unfolding u using decode2 [OF l, of bs] by (simp only: e append_Cons append_Nil)
  next
    case 3
    then have u: "utf8_cp c = [byte_of (0xE0 + c div 4096), byte_of (0x80 + c div 64 mod 64),
         byte_of (0x80 + c mod 64)]"
      by (simp add: utf8_cp_def)
    from 3 have l: "c div 4096 < 16" "c div 64 mod 64 < 64" "c mod 64 < 64" by simp_all
    note e = split3 [of c]
    from 3 assms have r: "0x800 \<le> c div 4096 * 4096 + c div 64 mod 64 * 64 + c mod 64"
      "is_scalar (c div 4096 * 4096 + c div 64 mod 64 * 64 + c mod 64)"
      by (simp_all only: e)
    show ?thesis
      unfolding u using decode3 [OF l r, of bs] by (simp only: e append_Cons append_Nil)
  next
    case 4
    then have u: "utf8_cp c = [byte_of (0xF0 + c div 262144), byte_of (0x80 + c div 4096 mod 64),
         byte_of (0x80 + c div 64 mod 64), byte_of (0x80 + c mod 64)]"
      by (simp add: utf8_cp_def)
    from 4 have l: "c div 262144 < 5" "c div 4096 mod 64 < 64" "c div 64 mod 64 < 64"
      "c mod 64 < 64"
      by simp_all
    note e = split4 [of c]
    from 4 have r:
      "0x10000 \<le> c div 262144 * 262144 + c div 4096 mod 64 * 4096 + c div 64 mod 64 * 64
          + c mod 64"
      "c div 262144 * 262144 + c div 4096 mod 64 * 4096 + c div 64 mod 64 * 64 + c mod 64
          < 0x110000"
      by (simp_all only: e)
    show ?thesis
      unfolding u using decode4 [OF l r, of bs] by (simp only: e append_Cons append_Nil)
  qed
qed

lemma bytes_decode_str_encode: "str_encode cs = Inr bs \<Longrightarrow> bytes_decode bs = Some cs"
proof (induction cs arbitrary: bs)
  case Nil
  then show ?case by simp
next
  case (Cons c cs)
  then show ?case
    by (auto simp: bytes_decode_utf8_cp simp del: bytes_decode.simps split: if_splits sum.splits)
qed



section \<open>Lemmas about the paged write\<close>

declare write_chunks.simps [simp del]

lemma chunks_Nil: "chunks a [] = []"
  by (simp add: chunks_def PAGE_SIZE_def)

lemma ceil_div_step:
  assumes "0 < (L::nat)"
  shows "(L + 31) div 32 = Suc ((L - 32 + 31) div 32)"
proof (cases "32 \<le> L")
  case True
  then obtain k where k: "L = k + 32"
    using le_Suc_ex by (metis add.commute)
  show ?thesis by (simp add: k)
next
  case False
  with assms obtain k where k: "L = Suc k" "k < 31"
    by (cases L) auto
  then show ?thesis by (simp add: div_eq_dividend_iff)
qed

lemma chunks_step:
  assumes "data \<noteq> []"
  shows "chunks a data
         = (a, take PAGE_SIZE data) # chunks (a + length (take PAGE_SIZE data)) (drop PAGE_SIZE data)"
proof -
  define f where "f = (\<lambda>i. (a + i * PAGE_SIZE, take PAGE_SIZE (drop (i * PAGE_SIZE) data)))"
  define g where
    "g = (\<lambda>i. (a + length (take PAGE_SIZE data) + i * PAGE_SIZE,
                take PAGE_SIZE (drop (i * PAGE_SIZE) (drop PAGE_SIZE data))))"
  define n where "n = (length data + PAGE_SIZE - 1) div PAGE_SIZE"
  define m where "m = (length (drop PAGE_SIZE data) + PAGE_SIZE - 1) div PAGE_SIZE"
  from assms have "0 < length data" by simp
  then have n: "n = Suc m"
    unfolding n_def m_def PAGE_SIZE_def using ceil_div_step [of "length data"] by (simp add: add.commute)
  have up: "[0..<Suc m] = 0 # map Suc [0..<m]"
    by (simp add: upt_conv_Cons map_Suc_upt del: upt_Suc)
  have rest: "map (\<lambda>i. f (Suc i)) [0..<m] = map g [0..<m]"
  proof (cases "PAGE_SIZE \<le> length data")
    case True
    then have "f (Suc i) = g i" for i
      by (simp add: f_def g_def add.commute)
    then show ?thesis by simp
  next
    case False
    then have "m = 0" by (simp add: m_def PAGE_SIZE_def)
    then show ?thesis by simp
  qed
  have "chunks a data = map f [0..<n]"
    unfolding chunks_def f_def n_def ..
  also have "\<dots> = f 0 # map (\<lambda>i. f (Suc i)) [0..<m]"
    by (simp add: n up comp_def del: upt_Suc)
  also have "\<dots> = f 0 # map g [0..<m]"
    by (simp only: rest)
  also have "f 0 = (a, take PAGE_SIZE data)"
    by (simp add: f_def)
  also have "map g [0..<m] = chunks (a + length (take PAGE_SIZE data)) (drop PAGE_SIZE data)"
    unfolding chunks_def g_def m_def ..
  finally show ?thesis .
qed

lemma wc_Nil: "write_chunks a [] s = s"
  by (simp add: write_chunks.simps)

lemma wc_fail:
  "data \<noteq> [] \<Longrightarrow> write_fails s (length (writes s)) \<Longrightarrow>
   write_chunks a data s
   = print FailedToWrite (s\<lparr>writes := writes s @ [(a, take PAGE_SIZE data)]\<rparr>)"
  by (subst write_chunks.simps) (simp add: writeto_mem_def Let_def)

lemma wc_ok:
  "data \<noteq> [] \<Longrightarrow> \<not> write_fails s (length (writes s)) \<Longrightarrow>
   write_chunks a data s
   = write_chunks (a + length (take PAGE_SIZE data)) (drop PAGE_SIZE data)
       (s\<lparr>writes := writes s @ [(a, take PAGE_SIZE data)],
          mem := (\<lambda>x. if a \<le> x \<and> x < a + length (take PAGE_SIZE data)
                       then take PAGE_SIZE data ! (x - a) else mem s x)\<rparr>)"
  by (subst write_chunks.simps) (simp add: writeto_mem_def Let_def)


lemma drop_page_shorter: "data \<noteq> [] \<Longrightarrow> length (drop PAGE_SIZE data) < length data"
  by (simp add: PAGE_SIZE_def)

lemma wc_all_ok:
  assumes "writes_succeed s"
  shows "write_chunks a data s
         = s\<lparr>writes := writes s @ chunks a data,
              mem := (\<lambda>x. if a \<le> x \<and> x < a + length data then data ! (x - a) else mem s x)\<rparr>"
  using assms
proof (induction "length data" arbitrary: a data s rule: less_induct)
  case less
  show ?case
  proof (cases "data = []")
    case True
    then have "(\<lambda>x. if a \<le> x \<and> x < a + length data then data ! (x - a) else mem s x) = mem s"
      by (auto intro!: ext)
    with True show ?thesis by (simp add: wc_Nil chunks_Nil)
  next
    case False
    let ?c = "take PAGE_SIZE data"
    let ?s1 = "s\<lparr>writes := writes s @ [(a, ?c)],
                 mem := (\<lambda>x. if a \<le> x \<and> x < a + length ?c then ?c ! (x - a) else mem s x)\<rparr>"
    from less.prems have nf: "\<not> write_fails s (length (writes s))"
      by (simp add: writes_succeed_def)
    from less.prems have ok1: "writes_succeed ?s1"
      by (simp add: writes_succeed_def)
    have m: "(\<lambda>x. if a + length ?c \<le> x \<and> x < a + length ?c + length (drop PAGE_SIZE data)
                 then drop PAGE_SIZE data ! (x - (a + length ?c)) else mem ?s1 x)
           = (\<lambda>x. if a \<le> x \<and> x < a + length data then data ! (x - a) else mem s x)"
    proof (rule ext)
      fix x
      show "(if a + length ?c \<le> x \<and> x < a + length ?c + length (drop PAGE_SIZE data)
                 then drop PAGE_SIZE data ! (x - (a + length ?c)) else mem ?s1 x)
           = (if a \<le> x \<and> x < a + length data then data ! (x - a) else mem s x)"
      proof (cases "PAGE_SIZE \<le> length data")
        case True
        then have l: "length ?c = PAGE_SIZE" by simp
        show ?thesis
          using True by (auto simp: l add.commute)
      next
        case False
        then show ?thesis by auto
      qed
    qed
    have "write_chunks a data s
          = write_chunks (a + length ?c) (drop PAGE_SIZE data) ?s1"
      using False nf by (rule wc_ok)
    also have "\<dots> = ?s1\<lparr>writes := writes ?s1 @ chunks (a + length ?c) (drop PAGE_SIZE data),
        mem := (\<lambda>x. if a + length ?c \<le> x \<and> x < a + length ?c + length (drop PAGE_SIZE data)
                 then drop PAGE_SIZE data ! (x - (a + length ?c)) else mem ?s1 x)\<rparr>"
      using drop_page_shorter [OF False] ok1 by (rule less.hyps)
    also have "\<dots> = s\<lparr>writes := writes s @ chunks a data,
              mem := (\<lambda>x. if a \<le> x \<and> x < a + length data then data ! (x - a) else mem s x)\<rparr>"
      unfolding m by (simp add: chunks_step [OF False])
    finally show ?thesis .
  qed
qed

lemma wc_first_fail:
  assumes "j < length (chunks a data)"
    and "write_fails s (length (writes s) + j)"
    and "\<forall>i<j. \<not> write_fails s (length (writes s) + i)"
  shows "writes (write_chunks a data s) = writes s @ take (Suc j) (chunks a data)
         \<and> printed (write_chunks a data s) = printed s @ [FailedToWrite]"
  using assms
proof (induction j arbitrary: a data s)
  case 0
  then have ne: "data \<noteq> []" by (auto simp: chunks_Nil)
  from 0 have "write_fails s (length (writes s))" by simp
  from wc_fail [OF ne this] show ?case
    by (simp add: chunks_step [OF ne] print_def)
next
  case (Suc j)
  then have ne: "data \<noteq> []" by (auto simp: chunks_Nil)
  let ?c = "take PAGE_SIZE data"
  let ?s1 = "s\<lparr>writes := writes s @ [(a, ?c)],
               mem := (\<lambda>x. if a \<le> x \<and> x < a + length ?c then ?c ! (x - a) else mem s x)\<rparr>"
  from Suc.prems(3) have nf: "\<not> write_fails s (length (writes s))" by force
  have step: "write_chunks a data s = write_chunks (a + length ?c) (drop PAGE_SIZE data) ?s1"
    using ne nf by (rule wc_ok)
  have 1: "j < length (chunks (a + length ?c) (drop PAGE_SIZE data))"
    using Suc.prems(1) by (simp add: chunks_step [OF ne])
  have 2: "write_fails ?s1 (length (writes ?s1) + j)"
    using Suc.prems(2) by simp
  have 3: "\<forall>i<j. \<not> write_fails ?s1 (length (writes ?s1) + i)"
  proof (intro allI impI)
    fix i assume "i < j"
    then have "Suc i < Suc j" by simp
    with Suc.prems(3) have "\<not> write_fails s (length (writes s) + Suc i)" by blast
    then show "\<not> write_fails ?s1 (length (writes ?s1) + i)" by simp
  qed
  from Suc.IH [OF 1 2 3] show ?case
    unfolding step by (simp add: chunks_step [OF ne])
qed

lemma wc_frame:
  "read_fails (write_chunks a data s) = read_fails s"
  "write_fails (write_chunks a data s) = write_fails s"
  "reads (write_chunks a data s) = reads s"
proof (induction "length data" arbitrary: a data s rule: less_induct)
  case less
  {
    case 1
    show ?case
    proof (cases "data = []")
      case True then show ?thesis by (simp add: wc_Nil)
    next
      case False
      show ?thesis
      proof (cases "write_fails s (length (writes s))")
        case True
        from wc_fail [OF False True] show ?thesis by (simp add: print_def)
      next
        case f: False
        show ?thesis
          unfolding wc_ok [OF False f, of a]
          using less(1) [OF drop_page_shorter [OF False]] by simp
      qed
    qed
  next
    case 2
    show ?case
    proof (cases "data = []")
      case True then show ?thesis by (simp add: wc_Nil)
    next
      case False
      show ?thesis
      proof (cases "write_fails s (length (writes s))")
        case True
        from wc_fail [OF False True] show ?thesis by (simp add: print_def)
      next
        case f: False
        show ?thesis
          unfolding wc_ok [OF False f, of a]
          using less(2) [OF drop_page_shorter [OF False]] by simp
      qed
    qed
  next
    case 3
    show ?case
    proof (cases "data = []")
      case True then show ?thesis by (simp add: wc_Nil)
    next
      case False
      show ?thesis
      proof (cases "write_fails s (length (writes s))")
        case True
        from wc_fail [OF False True] show ?thesis by (simp add: print_def)
      next
        case f: False
        show ?thesis
          unfolding wc_ok [OF False f, of a]
          using less(3) [OF drop_page_shorter [OF False]] by simp
      qed
    qed
  }
qed

section \<open>Lemmas about reading and loading\<close>

lemma print_fields [simp]:
  "mem (print m s) = mem s"
  "write_fails (print m s) = write_fails s"
  "read_fails (print m s) = read_fails s"
  "writes (print m s) = writes s"
  "reads (print m s) = reads s"
  "printed (print m s) = printed s @ [m]"
  by (simp_all add: print_def)

lemma read_bytes_ok:
  "\<not> read_fails s (length (reads s)) \<Longrightarrow>
   read_bytes_from_eeprom a n s
   = (Some (map (mem s) [a..<a + n]), s\<lparr>reads := reads s @ [(a, n)]\<rparr>)"
  by (simp add: read_bytes_from_eeprom_def readfrom_mem_def Let_def)

lemma read_bytes_fail:
  "read_fails s (length (reads s)) \<Longrightarrow>
   read_bytes_from_eeprom a n s
   = (None, print FailedToRead (s\<lparr>reads := reads s @ [(a, n)]\<rparr>))"
  by (simp add: read_bytes_from_eeprom_def readfrom_mem_def Let_def)

lemma read_bytes_length:
  "read_bytes_from_eeprom a n s = (Some bs, s') \<Longrightarrow> length bs = n"
  by (cases "read_fails s (length (reads s))") (auto simp: read_bytes_ok read_bytes_fail)

lemma read_string_ok:
  "\<not> read_fails s (length (reads s)) \<Longrightarrow> bytes_decode (map (mem s) [a..<a + n]) = Some str \<Longrightarrow>
   read_string_from_eeprom a n s = (Some str, s\<lparr>reads := reads s @ [(a, n)]\<rparr>)"
  by (simp add: read_string_from_eeprom_def read_bytes_ok)

lemma holds_append:
  "holds m a (xs @ ys) \<longleftrightarrow> holds m a xs \<and> holds m (a + length xs) ys"
proof -
  have "[a..<a + length xs + length ys]
        = [a..<a + length xs] @ [a + length xs..<a + length xs + length ys]"
    by (rule upt_add_eq_append) simp
  then have e: "map m [a..<a + length (xs @ ys)]
        = map m [a..<a + length xs] @ map m [a + length xs..<a + length xs + length ys]"
    by (simp only: length_append add.assoc map_append)
  have l: "length (map m [a..<a + length xs]) = length xs"
    by simp
  show ?thesis
    unfolding holds_def e using l by (rule append_eq_append_conv [OF disjI1])
qed

lemma holds_Cons:
  "holds m a (x # xs) \<longleftrightarrow> m a = x \<and> holds m (Suc a) xs"
  by (simp add: holds_def upt_conv_Cons del: upt_Suc)

lemma holds_read: "holds m a xs \<Longrightarrow> length xs = n \<Longrightarrow> map m [a..<a + n] = xs"
  by (auto simp: holds_def)

lemma first_byte_FF:
  assumes "mem s address = 0xFF"
  shows "fst (load_event_from_eeprom address s) = None"
    and "reads (snd (load_event_from_eeprom address s)) = reads s @ [(address, 1)]"
proof -
  let ?s0 = "print (LoadingEvent address) s"
  show "fst (load_event_from_eeprom address s) = None"
  proof (cases "read_fails s (length (reads s))")
    case True
    then have "read_fails ?s0 (length (reads ?s0))" by simp
    from read_bytes_fail [OF this] show ?thesis
      by (simp add: load_event_from_eeprom_def)
  next
    case False
    then have "\<not> read_fails ?s0 (length (reads ?s0))" by simp
    from read_bytes_ok [OF this] assms show ?thesis
      by (simp add: load_event_from_eeprom_def Let_def)
  qed
  show "reads (snd (load_event_from_eeprom address s)) = reads s @ [(address, 1)]"
  proof (cases "read_fails s (length (reads s))")
    case True
    then have "read_fails ?s0 (length (reads ?s0))" by simp
    from read_bytes_fail [OF this] show ?thesis
      by (simp add: load_event_from_eeprom_def)
  next
    case False
    then have "\<not> read_fails ?s0 (length (reads ?s0))" by simp
    from read_bytes_ok [OF this] assms show ?thesis
      by (simp add: load_event_from_eeprom_def Let_def)
  qed
qed


lemma reads_succeed_offsets:
  assumes "reads_succeed s"
  shows "\<not> read_fails s (length (reads s))"
    "\<not> read_fails s (Suc (length (reads s)))"
    "\<not> read_fails s (Suc (Suc (length (reads s))))"
    "\<not> read_fails s (Suc (Suc (Suc (length (reads s)))))"
    "\<not> read_fails s (Suc (Suc (Suc (Suc (length (reads s))))))"
    "\<not> read_fails s (Suc (Suc (Suc (Suc (Suc (length (reads s)))))))"
    "\<not> read_fails s (Suc (Suc (Suc (Suc (Suc (Suc (length (reads s))))))))"
    "\<not> read_fails s (Suc (Suc (Suc (Suc (Suc (Suc (Suc (length (reads s)))))))))"
    "\<not> read_fails s (Suc (Suc (Suc (Suc (Suc (Suc (Suc (Suc (length (reads s))))))))))"
  using assms by (simp_all add: reads_succeed_def)

lemma serialize_layout:
  assumes "str_encode (event_name ev) = Inr nb" "length nb \<le> 50"
    and "str_encode (speaker_name ev) = Inr sb" "length sb \<le> 50"
    and "str_encode (description ev) = Inr db" "length db \<le> 138"
    and "0 \<le> start_time ev" "start_time ev < 2 ^ 32"
    and "0 \<le> end_time ev" "end_time ev < 2 ^ 32"
  shows "serialize_event rt ev
         = Encoded (byte_of (length nb) # nb @ be_bytes 4 (start_time ev)
             @ be_bytes 4 (end_time ev) @ byte_of (length sb) # sb
             @ be_bytes 2 (int (length db)) @ db)"
  using assms
  by (simp add: serialize_event_def to_bytes_big_def length_be_bytes Let_def)

lemma load_layout:
  assumes ok: "reads_succeed s"
    and h: "holds (mem s) a (byte_of (length nb) # nb @ be_bytes 4 st @ be_bytes 4 et
              @ byte_of (length sb) # sb @ be_bytes 2 (int (length db)) @ db)"
    and n: "1 \<le> length nb" "length nb \<le> 50" "bytes_decode nb = Some name"
    and sp: "1 \<le> length sb" "length sb \<le> 50" "bytes_decode sb = Some speaker"
    and d: "1 \<le> length db" "length db \<le> 138" "bytes_decode db = Some desc"
    and t: "0 \<le> st" "st < 2 ^ 32" "0 \<le> et" "et < 2 ^ 32"
  shows "fst (load_event_from_eeprom a s)
         = Some \<lparr>event_name = name, start_time = st, end_time = et,
                  speaker_name = speaker, description = desc\<rparr>"
proof -
  from h have h1: "mem s a = byte_of (length nb)"
    and r1: "holds (mem s) (Suc a) (nb @ be_bytes 4 st @ be_bytes 4 et
              @ byte_of (length sb) # sb @ be_bytes 2 (int (length db)) @ db)"
    by (simp_all only: holds_Cons)
  from r1 have g2: "holds (mem s) (Suc a) nb"
    and r2: "holds (mem s) (Suc a + length nb) (be_bytes 4 st @ be_bytes 4 et
              @ byte_of (length sb) # sb @ be_bytes 2 (int (length db)) @ db)"
    by (simp_all only: holds_append)
  from r2 have g3: "holds (mem s) (Suc a + length nb) (be_bytes 4 st)"
    and r3: "holds (mem s) (Suc a + length nb + 4) (be_bytes 4 et
              @ byte_of (length sb) # sb @ be_bytes 2 (int (length db)) @ db)"
    by (simp_all only: holds_append length_be_bytes)
  from r3 have g4: "holds (mem s) (Suc a + length nb + 4) (be_bytes 4 et)"
    and r4: "holds (mem s) (Suc a + length nb + 4 + 4)
              (byte_of (length sb) # sb @ be_bytes 2 (int (length db)) @ db)"
    by (simp_all only: holds_append length_be_bytes)
  from r4 have h5: "mem s (Suc a + length nb + 4 + 4) = byte_of (length sb)"
    and r5: "holds (mem s) (Suc (Suc a + length nb + 4 + 4))
              (sb @ be_bytes 2 (int (length db)) @ db)"
    by (simp_all only: holds_Cons)
  from r5 have g6: "holds (mem s) (Suc (Suc a + length nb + 4 + 4)) sb"
    and r6: "holds (mem s) (Suc (Suc a + length nb + 4 + 4) + length sb)
              (be_bytes 2 (int (length db)) @ db)"
    by (simp_all only: holds_append)
  from r6 have g7: "holds (mem s) (Suc (Suc a + length nb + 4 + 4) + length sb)
              (be_bytes 2 (int (length db)))"
    and g8: "holds (mem s) (Suc (Suc a + length nb + 4 + 4) + length sb + 2) db"
    by (simp_all only: holds_append length_be_bytes)
  note h2 = g2 [unfolded holds_def]
  note h3 = g3 [unfolded holds_def length_be_bytes]
  note h4 = g4 [unfolded holds_def length_be_bytes]
  note h6 = g6 [unfolded holds_def]
  note h7 = g7 [unfolded holds_def length_be_bytes]
  note h8 = g8 [unfolded holds_def]
  have u1: "unat (byte_of (length nb)) = length nb" using n by (simp add: unat_byte_of)
  have u2: "unat (byte_of (length sb)) = length sb" using sp by (simp add: unat_byte_of)
  have f1: "from_bytes_big (be_bytes 4 st) = st" using t by (simp add: from_bytes_to_bytes)
  have f2: "from_bytes_big (be_bytes 4 et) = et" using t by (simp add: from_bytes_to_bytes)
  have f3: "from_bytes_big (be_bytes 2 (int (length db))) = int (length db)"
    using d by (simp add: from_bytes_to_bytes)
  have ne: "nb \<noteq> []" "sb \<noteq> []" "db \<noteq> []"
    using n(1) sp(1) d(1) by auto
  note r = reads_succeed_offsets [OF ok]
  show ?thesis
    using r h1 h2 h3 h4 h5 h6 h7 h8 n sp d ne
    by (simp add: load_event_from_eeprom_def Let_def read_bytes_ok read_string_ok
        u1 u2 f1 f2 f3 length_be_bytes)
qed


subsection \<open>What a load leaves alone and what it depends on\<close>

lemma quiet_refl: "quiet s s"
  by (simp add: quiet_def)

lemma quiet_trans: "quiet s s' \<Longrightarrow> quiet s' s'' \<Longrightarrow> quiet s s''"
  by (simp add: quiet_def)

lemma quiet_print: "\<not> is_report m \<Longrightarrow> quiet s (print m s)"
  by (simp add: quiet_def)

lemma quiet_print_trans: "quiet s s' \<Longrightarrow> \<not> is_report m \<Longrightarrow> quiet s (print m s')"
  by (simp add: quiet_def)

lemma quiet_read_bytes: "read_bytes_from_eeprom a n s = (r, s') \<Longrightarrow> quiet s s'"
  by (auto simp: read_bytes_from_eeprom_def readfrom_mem_def Let_def quiet_def is_report_def
      split: if_splits)

lemma quiet_read_string: "read_string_from_eeprom a n s = (r, s') \<Longrightarrow> quiet s s'"
  by (auto simp: read_string_from_eeprom_def is_report_def
      split: prod.splits option.splits if_splits
      dest!: quiet_read_bytes intro: quiet_print_trans)

lemma quiet_leaf: "quiet s0 s \<Longrightarrow> \<not> is_report m \<Longrightarrow> quiet s0 (snd (r, print m s))"
  by (simp add: quiet_def)

lemma quiet_if:
  "(c \<Longrightarrow> quiet s0 (snd A)) \<Longrightarrow> (\<not> c \<Longrightarrow> quiet s0 (snd B)) \<Longrightarrow> quiet s0 (snd (if c then A else B))"
  by simp

lemma quiet_case_option:
  "quiet s0 (snd A) \<Longrightarrow> (\<And>x. quiet s0 (snd (B x)))
   \<Longrightarrow> quiet s0 (snd (case r of None \<Rightarrow> A | Some x \<Rightarrow> B x))"
  by (cases r) simp_all

lemma quiet_bind_bytes:
  "quiet s0 s \<Longrightarrow> (\<And>r s'. quiet s0 s' \<Longrightarrow> quiet s0 (snd (f r s')))
   \<Longrightarrow> quiet s0 (snd (case read_bytes_from_eeprom a n s of (r, s') \<Rightarrow> f r s'))"
  by (cases "read_bytes_from_eeprom a n s") (auto dest: quiet_read_bytes quiet_trans)

lemma quiet_bind_string:
  "quiet s0 s \<Longrightarrow> (\<And>r s'. quiet s0 s' \<Longrightarrow> quiet s0 (snd (f r s')))
   \<Longrightarrow> quiet s0 (snd (case read_string_from_eeprom a n s of (r, s') \<Rightarrow> f r s'))"
  by (cases "read_string_from_eeprom a n s") (auto dest: quiet_read_string quiet_trans)

lemma quiet_load: "quiet s (snd (load_event_from_eeprom a s))"
  unfolding load_event_from_eeprom_def Let_def
  by (rule quiet_bind_bytes quiet_bind_string quiet_case_option quiet_if quiet_leaf
        quiet_print_trans quiet_refl
      | assumption | simp add: is_report_def)+

lemma reads_succeed_print [simp]: "reads_succeed (print m s) = reads_succeed s"
  by (simp add: reads_succeed_def)

lemma twin_print: "twin s s' \<Longrightarrow> twin (print m s) (print m' s')"
  by (simp add: twin_def)

lemma same_leaf: "fst (r, x) = fst (r, y)"
  by simp

lemma same_if:
  "(c \<Longrightarrow> fst A = fst A') \<Longrightarrow> (\<not> c \<Longrightarrow> fst B = fst B')
   \<Longrightarrow> fst (if c then A else B) = fst (if c then A' else B')"
  by simp

lemma same_case_option:
  "fst A = fst A' \<Longrightarrow> (\<And>x. fst (B x) = fst (B' x))
   \<Longrightarrow> fst (case r of None \<Rightarrow> A | Some x \<Rightarrow> B x)
       = fst (case r of None \<Rightarrow> A' | Some x \<Rightarrow> B' x)"
  by (cases r) simp_all

lemma same_bind_bytes:
  assumes "twin s s'"
    and "\<And>r t t'. twin t t' \<Longrightarrow> fst (f r t) = fst (f' r t')"
  shows "fst (case read_bytes_from_eeprom a n s of (r, t) \<Rightarrow> f r t)
         = fst (case read_bytes_from_eeprom a n s' of (r, t) \<Rightarrow> f' r t)"
proof -
  from assms(1) have ok: "\<not> read_fails s (length (reads s))" "\<not> read_fails s' (length (reads s'))"
    by (simp_all add: twin_def reads_succeed_def)
  from assms(1) have "twin (s\<lparr>reads := reads s @ [(a, n)]\<rparr>) (s'\<lparr>reads := reads s' @ [(a, n)]\<rparr>)"
    by (simp add: twin_def reads_succeed_def)
  from assms(2) [OF this] assms(1) show ?thesis
    by (simp add: read_bytes_ok ok twin_def)
qed

lemma same_bind_string:
  assumes "twin s s'"
    and "\<And>r t t'. twin t t' \<Longrightarrow> fst (f r t) = fst (f' r t')"
  shows "fst (case read_string_from_eeprom a n s of (r, t) \<Rightarrow> f r t)
         = fst (case read_string_from_eeprom a n s' of (r, t) \<Rightarrow> f' r t)"
proof -
  from assms(1) have ok: "\<not> read_fails s (length (reads s))" "\<not> read_fails s' (length (reads s'))"
    by (simp_all add: twin_def reads_succeed_def)
  let ?t = "s\<lparr>reads := reads s @ [(a, n)]\<rparr>" and ?t' = "s'\<lparr>reads := reads s' @ [(a, n)]\<rparr>"
  from assms(1) have tw: "twin ?t ?t'"
    by (simp add: twin_def reads_succeed_def)
  from assms(1) have m: "mem s' = mem s" by (simp add: twin_def)
  show ?thesis
  proof (cases "bytes_decode (map (mem s) [a..<a + n])")
    case None
    from assms(2) [OF twin_print [OF tw], of None FailedToDecode FailedToDecode] None m
    show ?thesis
      by (simp add: read_string_from_eeprom_def read_bytes_ok ok)
  next
    case (Some str)
    from assms(2) [OF tw, of "Some str"] Some m
    show ?thesis
      by (simp add: read_string_from_eeprom_def read_bytes_ok ok)
  qed
qed

lemma load_depends_on_mem:
  assumes "reads_succeed s" "reads_succeed s'" "mem s' = mem s"
  shows "fst (load_event_from_eeprom a s') = fst (load_event_from_eeprom a s)"
proof -
  from assms have tw: "twin (print (LoadingEvent a) s') (print (LoadingEvent a) s)"
    by (simp add: twin_def)
  show ?thesis
    unfolding load_event_from_eeprom_def Let_def
    by (rule same_bind_bytes same_bind_string same_case_option same_if same_leaf twin_print tw
        | assumption)+
qed


lemma first_byte_invalid:
  assumes "unat (mem s address) = 0 \<or> 50 < unat (mem s address)"
  shows "fst (load_event_from_eeprom address s) = None"
proof (cases "read_fails s (length (reads s))")
  case True
  then have "read_fails (print (LoadingEvent address) s)
               (length (reads (print (LoadingEvent address) s)))"
    by simp
  from read_bytes_fail [OF this] show ?thesis
    by (simp add: load_event_from_eeprom_def)
next
  case False
  then have "\<not> read_fails (print (LoadingEvent address) s)
               (length (reads (print (LoadingEvent address) s)))"
    by simp
  from read_bytes_ok [OF this] assms show ?thesis
    by (auto simp: load_event_from_eeprom_def Let_def)
qed

section \<open>Lemmas about saving\<close>

lemma reads_succeed_grow:
  "reads_succeed s \<Longrightarrow> read_fails s' = read_fails s \<Longrightarrow> length (reads s) \<le> length (reads s')
   \<Longrightarrow> reads_succeed s'"
  by (simp add: reads_succeed_def)

lemma holds_written:
  "holds (\<lambda>x. if a \<le> x \<and> x < a + length data then data ! (x - a) else m x) a data"
  unfolding holds_def by (rule nth_equalityI) simp_all

lemma quiet_read_bytes_eq:
  assumes "read_bytes_from_eeprom a n s = (r, s')"
  shows "mem s' = mem s" "writes s' = writes s" "write_fails s' = write_fails s"
    "read_fails s' = read_fails s" "length (reads s) \<le> length (reads s')"
    "filter is_report (printed s') = filter is_report (printed s)"
  using quiet_read_bytes [OF assms] by (simp_all add: quiet_def)

lemma be_bytes_4:
  "be_bytes 4 x
   = [word_of_int (x div 256 div 256 div 256), word_of_int (x div 256 div 256),
      word_of_int (x div 256), word_of_int x]"
proof -
  have "be_bytes 4 x = be_bytes (Suc (Suc (Suc (Suc 0)))) x"
    by (simp add: eval_nat_numeral)
  then show ?thesis by simp
qed

lemma be_bytes_2: "be_bytes 2 x = [word_of_int (x div 256), word_of_int x]"
proof -
  have "be_bytes 2 x = be_bytes (Suc (Suc 0)) x"
    by (simp add: eval_nat_numeral)
  then show ?thesis by simp
qed

lemma save_Raised: "serialize_event rt ev = Raised e \<Longrightarrow> save_event_to_eeprom rt ev a s = (Inl e, s)"
  by (simp add: save_event_to_eeprom_def)

lemma save_Rejected:
  "serialize_event rt ev = Rejected m \<Longrightarrow> save_event_to_eeprom rt ev a s = (Inr (), print m s)"
  by (simp add: save_event_to_eeprom_def)

lemma save_Encoded:
  assumes "serialize_event rt ev = Encoded data"
  shows "fst (save_event_to_eeprom rt ev a s) = Inr ()"
    and "mem (snd (save_event_to_eeprom rt ev a s)) = mem (write_chunks a data s)"
    and "writes (snd (save_event_to_eeprom rt ev a s)) = writes (write_chunks a data s)"
    and "read_fails (snd (save_event_to_eeprom rt ev a s)) = read_fails s"
    and "write_fails (snd (save_event_to_eeprom rt ev a s)) = write_fails s"
    and "length (reads s) \<le> length (reads (snd (save_event_to_eeprom rt ev a s)))"
    and "take (length (printed (write_chunks a data s)) + 2)
           (printed (snd (save_event_to_eeprom rt ev a s)))
         = printed (write_chunks a data s) @ [BytesWritten, EventSaved]"
proof -
  let ?s2 = "print EventSaved (write_bytes_to_eeprom a data s)"
  obtain v s3 where r: "read_bytes_from_eeprom a (length data) ?s2 = (v, s3)"
    by (cases "read_bytes_from_eeprom a (length data) ?s2")
  note q = quiet_read_bytes_eq [OF r]
  have p: "printed s3 = printed ?s2 \<or> printed s3 = printed ?s2 @ [FailedToRead]"
    using r by (auto simp: read_bytes_from_eeprom_def readfrom_mem_def Let_def split: if_splits)
  have sv: "snd (save_event_to_eeprom rt ev a s)
      = print (if v = Some data then VerificationSuccessful else VerificationFailed) s3"
    using assms r by (simp add: save_event_to_eeprom_def Let_def)
  show "fst (save_event_to_eeprom rt ev a s) = Inr ()"
    using assms r by (simp add: save_event_to_eeprom_def Let_def)
  show "mem (snd (save_event_to_eeprom rt ev a s)) = mem (write_chunks a data s)"
    unfolding sv using q by (simp add: write_bytes_to_eeprom_def)
  show "writes (snd (save_event_to_eeprom rt ev a s)) = writes (write_chunks a data s)"
    unfolding sv using q by (simp add: write_bytes_to_eeprom_def)
  show "read_fails (snd (save_event_to_eeprom rt ev a s)) = read_fails s"
    unfolding sv using q by (simp add: write_bytes_to_eeprom_def wc_frame)
  show "write_fails (snd (save_event_to_eeprom rt ev a s)) = write_fails s"
    unfolding sv using q by (simp add: write_bytes_to_eeprom_def wc_frame)
  show "length (reads s) \<le> length (reads (snd (save_event_to_eeprom rt ev a s)))"
    unfolding sv using q by (simp add: write_bytes_to_eeprom_def wc_frame)
  show "take (length (printed (write_chunks a data s)) + 2)
           (printed (snd (save_event_to_eeprom rt ev a s)))
         = printed (write_chunks a data s) @ [BytesWritten, EventSaved]"
    unfolding sv using p by (auto simp: write_bytes_to_eeprom_def)
qed

lemma save_on_good_bus:
  assumes "serialize_event rt ev = Encoded data" "writes_succeed s"
  shows "holds (mem (snd (save_event_to_eeprom rt ev a s))) a data"
    and "writes (snd (save_event_to_eeprom rt ev a s)) = writes s @ chunks a data"
    and "mem (snd (save_event_to_eeprom rt ev a s))
         = (\<lambda>x. if a \<le> x \<and> x < a + length data then data ! (x - a) else mem s x)"
  using save_Encoded(2,3) [OF assms(1), of a s] wc_all_ok [OF assms(2), of a data]
  by (simp_all add: holds_written)

lemma load_serialized:
  assumes "str_encode (event_name ev) = Inr nb" "1 \<le> length nb" "length nb \<le> 50"
    and "str_encode (speaker_name ev) = Inr sb" "1 \<le> length sb" "length sb \<le> 50"
    and "str_encode (description ev) = Inr db" "1 \<le> length db" "length db \<le> 138"
    and "0 \<le> start_time ev" "start_time ev < 2 ^ 32"
    and "0 \<le> end_time ev" "end_time ev < 2 ^ 32"
    and "serialize_event rt ev = Encoded data"
    and "reads_succeed s" "holds (mem s) a data"
  shows "fst (load_event_from_eeprom a s) = Some ev"
proof -
  have l: "serialize_event rt ev
         = Encoded (byte_of (length nb) # nb @ be_bytes 4 (start_time ev)
             @ be_bytes 4 (end_time ev) @ byte_of (length sb) # sb
             @ be_bytes 2 (int (length db)) @ db)"
    using assms(1,3,4,6,7,9-13) by (rule serialize_layout)
  with assms(14,16) have h: "holds (mem s) a (byte_of (length nb) # nb @ be_bytes 4 (start_time ev)
             @ be_bytes 4 (end_time ev) @ byte_of (length sb) # sb
             @ be_bytes 2 (int (length db)) @ db)"
    by simp
  have "fst (load_event_from_eeprom a s)
        = Some \<lparr>event_name = event_name ev, start_time = start_time ev,
                 end_time = end_time ev, speaker_name = speaker_name ev,
                 description = description ev\<rparr>"
    using assms(15) h assms(2,3) bytes_decode_str_encode [OF assms(1)]
      assms(5,6) bytes_decode_str_encode [OF assms(4)]
      assms(8,9) bytes_decode_str_encode [OF assms(7)] assms(10-13)
    by (rule load_layout)
  then show ?thesis by simp
qed

lemma serialize_ceremony: "serialize_event rt ceremony = Encoded ceremony_bytes"
  by (simp add: serialize_event_def ceremony_def ceremony_bytes_def py_def utf8_cp_def
      is_scalar_def to_bytes_big_def byte_of_def Let_def be_bytes_4 be_bytes_2)

lemma holds_bus_with_ceremony: "holds (mem (bus_with ceremony_bytes)) 0 ceremony_bytes"
  by (simp add: holds_def bus_with_def erased_bus_def ceremony_bytes_def upt_conv_Cons
      del: upt_Suc)

lemma reads_succeed_bus_with: "reads_succeed (bus_with data)"
  by (simp add: reads_succeed_def bus_with_def erased_bus_def)

lemma writes_succeed_erased: "writes_succeed erased_bus" "reads_succeed erased_bus"
  by (simp_all add: writes_succeed_def reads_succeed_def erased_bus_def)

lemma str_encode_ascii:
  "\<forall>c\<in>set cs. c < 128 \<Longrightarrow> str_encode cs = Inr (map byte_of cs)"
  by (induction cs) (simp_all add: is_scalar_def utf8_cp_def)

lemma serialize_inversion:
  assumes "serialize_event rt ev = Encoded data"
  shows "\<exists>nb sb db. str_encode (event_name ev) = Inr nb \<and> length nb \<le> 50 \<and>
           str_encode (speaker_name ev) = Inr sb \<and> length sb \<le> 50 \<and>
           str_encode (description ev) = Inr db \<and> length db \<le> 138 \<and> length data \<le> 250"
  using assms
  by (auto simp: serialize_event_def Let_def split: sum.splits if_splits)

lemma save_not_Encoded:
  assumes "\<forall>data. serialize_event rt ev \<noteq> Encoded data"
  shows "writes (snd (save_event_to_eeprom rt ev a s)) = writes s"
    and "mem (snd (save_event_to_eeprom rt ev a s)) = mem s"
    and "reads (snd (save_event_to_eeprom rt ev a s)) = reads s"
  using assms
  by (cases "serialize_event rt ev"; simp add: save_Raised save_Rejected)+

lemma save_then_load:
  assumes "str_encode (event_name ev) = Inr nb" "1 \<le> length nb" "length nb \<le> 50"
    and "str_encode (speaker_name ev) = Inr sb" "1 \<le> length sb" "length sb \<le> 50"
    and "str_encode (description ev) = Inr db" "1 \<le> length db" "length db \<le> 138"
    and "0 \<le> start_time ev" "start_time ev < 2 ^ 32"
    and "0 \<le> end_time ev" "end_time ev < 2 ^ 32"
    and "writes_succeed s" "reads_succeed s"
  shows "fst (load_event_from_eeprom a (snd (save_event_to_eeprom rt ev a s))) = Some ev"
proof -
  obtain data where enc: "serialize_event rt ev = Encoded data"
    using serialize_layout [OF assms(1,3,4,6,7,9-13)] by blast
  have "reads_succeed (snd (save_event_to_eeprom rt ev a s))"
    using assms(15) save_Encoded(4,6) [OF enc] by (rule reads_succeed_grow)
  moreover have "holds (mem (snd (save_event_to_eeprom rt ev a s))) a data"
    using enc assms(14) by (rule save_on_good_bus)
  ultimately show ?thesis
    using assms(1-13) enc by (intro load_serialized)
qed


lemma ceremony_fields:
  "str_encode (event_name ceremony) = Inr (map byte_of (py ''Ceremony''))"
  "str_encode (speaker_name ceremony) = Inr (map byte_of (py ''Elliot''))"
  "str_encode (description ceremony) = Inr (map byte_of (py ''Badges!''))"
  by (simp_all add: ceremony_def py_def is_scalar_def utf8_cp_def)

lemma serialize_full_event: "serialize_event rt full_event = Encoded full_bytes"
proof -
  have "serialize_event rt full_event
        = Encoded (byte_of (length (map byte_of (replicate 50 (65::nat))))
            # map byte_of (replicate 50 65) @ be_bytes 4 (start_time full_event)
            @ be_bytes 4 (end_time full_event)
            @ byte_of (length (map byte_of (replicate 50 (66::nat))))
            # map byte_of (replicate 50 66)
            @ be_bytes 2 (int (length (map byte_of (replicate 138 (67::nat)))))
            @ map byte_of (replicate 138 67))"
    by (rule serialize_layout) (simp_all add: full_event_def str_encode_ascii)
  then show ?thesis
    by (simp add: full_bytes_def full_event_def)
qed

lemma length_full_bytes: "length full_bytes = 250"
  by (simp add: full_bytes_def length_be_bytes)

lemma length_chunks: "length (chunks a data) = (length data + 31) div 32"
  by (simp add: chunks_def PAGE_SIZE_def)

lemma chunks_single:
  "data \<noteq> [] \<Longrightarrow> length data \<le> PAGE_SIZE \<Longrightarrow> chunks a data = [(a, data)]"
  by (simp add: chunks_step chunks_Nil)

lemma save_verified:
  assumes "serialize_event rt ev = Encoded data" "writes_succeed s"
    and "\<not> read_fails s (length (reads s))"
  shows "printed (snd (save_event_to_eeprom rt ev a s))
         = printed s @ [BytesWritten, EventSaved, VerificationSuccessful]"
proof -
  have h: "map (\<lambda>x. if a \<le> x \<and> x < a + length data then data ! (x - a) else mem s x)
             [a..<a + length data] = data"
    using holds_written [of a data "mem s"] by (simp only: holds_def)
  show ?thesis
    using assms(1,3) h
    by (simp add: save_event_to_eeprom_def write_bytes_to_eeprom_def wc_all_ok [OF assms(2)]
        read_bytes_ok Let_def)
qed

lemma load_layout_empty_description:
  assumes ok: "reads_succeed s"
    and h: "holds (mem s) a (byte_of (length nb) # nb @ be_bytes 4 st @ be_bytes 4 et
              @ byte_of (length sb) # sb @ be_bytes 2 0 @ db)"
    and n: "1 \<le> length nb" "length nb \<le> 50" "bytes_decode nb = Some name"
    and sp: "1 \<le> length sb" "length sb \<le> 50" "bytes_decode sb = Some speaker"
  shows "fst (load_event_from_eeprom a s) = None"
proof -
  from h have h1: "mem s a = byte_of (length nb)"
    and r1: "holds (mem s) (Suc a) (nb @ be_bytes 4 st @ be_bytes 4 et
              @ byte_of (length sb) # sb @ be_bytes 2 0 @ db)"
    by (simp_all only: holds_Cons)
  from r1 have g2: "holds (mem s) (Suc a) nb"
    and r2: "holds (mem s) (Suc a + length nb) (be_bytes 4 st @ be_bytes 4 et
              @ byte_of (length sb) # sb @ be_bytes 2 0 @ db)"
    by (simp_all only: holds_append)
  from r2 have g3: "holds (mem s) (Suc a + length nb) (be_bytes 4 st)"
    and r3: "holds (mem s) (Suc a + length nb + 4) (be_bytes 4 et
              @ byte_of (length sb) # sb @ be_bytes 2 0 @ db)"
    by (simp_all only: holds_append length_be_bytes)
  from r3 have g4: "holds (mem s) (Suc a + length nb + 4) (be_bytes 4 et)"
    and r4: "holds (mem s) (Suc a + length nb + 4 + 4)
              (byte_of (length sb) # sb @ be_bytes 2 0 @ db)"
    by (simp_all only: holds_append length_be_bytes)
  from r4 have h5: "mem s (Suc a + length nb + 4 + 4) = byte_of (length sb)"
    and r5: "holds (mem s) (Suc (Suc a + length nb + 4 + 4)) (sb @ be_bytes 2 0 @ db)"
    by (simp_all only: holds_Cons)
  from r5 have g6: "holds (mem s) (Suc (Suc a + length nb + 4 + 4)) sb"
    and r6: "holds (mem s) (Suc (Suc a + length nb + 4 + 4) + length sb) (be_bytes 2 0 @ db)"
    by (simp_all only: holds_append)
  from r6 have g7: "holds (mem s) (Suc (Suc a + length nb + 4 + 4) + length sb) (be_bytes 2 0)"
    by (simp_all only: holds_append length_be_bytes)
  note h2 = g2 [unfolded holds_def]
  note h3 = g3 [unfolded holds_def length_be_bytes]
  note h4 = g4 [unfolded holds_def length_be_bytes]
  note h6 = g6 [unfolded holds_def]
  note h7 = g7 [unfolded holds_def length_be_bytes]
  have u1: "unat (byte_of (length nb)) = length nb" using n by (simp add: unat_byte_of)
  have u2: "unat (byte_of (length sb)) = length sb" using sp by (simp add: unat_byte_of)
  have f3: "from_bytes_big (be_bytes 2 0) = 0"
    by (simp add: from_bytes_be_bytes)
  have ne: "nb \<noteq> []" "sb \<noteq> []"
    using n(1) sp(1) by auto
  note r = reads_succeed_offsets [OF ok]
  show ?thesis
    using r h1 h2 h3 h4 h5 h6 h7 n sp ne
    by (simp add: load_event_from_eeprom_def Let_def read_bytes_ok read_string_ok
        u1 u2 f3 length_be_bytes)
qed

lemma serialize_empty_description:
  "serialize_event rt empty_description = Encoded empty_description_bytes"
  by (simp add: serialize_event_def empty_description_def ceremony_def
      empty_description_bytes_def py_def utf8_cp_def is_scalar_def to_bytes_big_def
      byte_of_def Let_def be_bytes_4 be_bytes_2)

lemma chunks_two:
  assumes "PAGE_SIZE < length data" "length data \<le> 2 * PAGE_SIZE"
  shows "chunks a data = [(a, take PAGE_SIZE data), (a + PAGE_SIZE, drop PAGE_SIZE data)]"
proof -
  from assms have ne: "data \<noteq> []" by auto
  from assms have "chunks (a + PAGE_SIZE) (drop PAGE_SIZE data)
                   = [(a + PAGE_SIZE, drop PAGE_SIZE data)]"
    by (intro chunks_single) auto
  with assms show ?thesis
    by (simp add: chunks_step [OF ne] min_def)
qed

lemma save_printed:
  assumes "serialize_event rt ev = Encoded data"
  shows "\<exists>rest. printed (snd (save_event_to_eeprom rt ev a s))
                = printed (write_chunks a data s) @ BytesWritten # EventSaved # rest"
proof -
  let ?s2 = "print EventSaved (write_bytes_to_eeprom a data s)"
  obtain v s3 where r: "read_bytes_from_eeprom a (length data) ?s2 = (v, s3)"
    by (cases "read_bytes_from_eeprom a (length data) ?s2")
  have p: "printed s3 = printed ?s2 \<or> printed s3 = printed ?s2 @ [FailedToRead]"
    using r by (auto simp: read_bytes_from_eeprom_def readfrom_mem_def Let_def split: if_splits)
  have sv: "snd (save_event_to_eeprom rt ev a s)
      = print (if v = Some data then VerificationSuccessful else VerificationFailed) s3"
    using assms r by (simp add: save_event_to_eeprom_def Let_def)
  show ?thesis
    unfolding sv using p by (auto simp: write_bytes_to_eeprom_def)
qed

lemma save_prints_saved:
  assumes "serialize_event rt ev = Encoded data"
  shows "EventSaved \<in> set (printed (snd (save_event_to_eeprom rt ev a s)))"
  using save_printed [OF assms, of a s] by auto

section \<open>Lemmas about wiping\<close>

lemma writes_succeed_grow:
  "writes_succeed s \<Longrightarrow> write_fails s' = write_fails s \<Longrightarrow> length (writes s) \<le> length (writes s')
   \<Longrightarrow> writes_succeed s'"
  by (simp add: writes_succeed_def)

lemma range_step_eeprom: "range_step EEPROM_SIZE PAGE_SIZE = map (\<lambda>j. j * 32) [0..<128]"
  by (simp add: range_step_def EEPROM_SIZE_def PAGE_SIZE_def)

lemma wipe_step_good:
  assumes "writes_succeed s" "addr + 32 \<le> 4096"
  shows "writes (wipe_step s addr) = writes s @ [(addr, replicate 32 0xFF)]"
    and "mem (wipe_step s addr) = (\<lambda>x. if addr \<le> x \<and> x < addr + 32 then 0xFF else mem s x)"
    and "write_fails (wipe_step s addr) = write_fails s"
    and "read_fails (wipe_step s addr) = read_fails s"
    and "reads (wipe_step s addr) = reads s"
proof -
  have c: "chunks addr (replicate 32 (0xFF :: byte)) = [(addr, replicate 32 0xFF)]"
    by (rule chunks_single) (simp_all add: PAGE_SIZE_def)
  have m: "(\<lambda>x. if addr \<le> x \<and> x < addr + length (replicate 32 (0xFF :: byte))
                then replicate 32 (0xFF :: byte) ! (x - addr) else mem s x)
           = (\<lambda>x. if addr \<le> x \<and> x < addr + 32 then 0xFF else mem s x)"
    by (rule ext) auto
  have w: "wipe_step s addr
      = print (Wiped addr (addr + 32 - 1))
          (print BytesWritten
            (s\<lparr>writes := writes s @ [(addr, replicate 32 0xFF)],
               mem := (\<lambda>x. if addr \<le> x \<and> x < addr + 32 then 0xFF else mem s x)\<rparr>))"
    using assms(2) wc_all_ok [OF assms(1), of addr "replicate 32 0xFF"]
    unfolding c m
    by (simp add: wipe_step_def Let_def EEPROM_SIZE_def PAGE_SIZE_def write_bytes_to_eeprom_def)
  show "writes (wipe_step s addr) = writes s @ [(addr, replicate 32 0xFF)]"
    and "mem (wipe_step s addr) = (\<lambda>x. if addr \<le> x \<and> x < addr + 32 then 0xFF else mem s x)"
    and "write_fails (wipe_step s addr) = write_fails s"
    and "read_fails (wipe_step s addr) = read_fails s"
    and "reads (wipe_step s addr) = reads s"
    unfolding w by simp_all
qed

lemma wipe_strokes:
  assumes "writes_succeed s" "n \<le> 128"
  shows "writes_succeed (foldl wipe_step s (map (\<lambda>j. j * 32) [0..<n]))
    \<and> writes (foldl wipe_step s (map (\<lambda>j. j * 32) [0..<n]))
        = writes s @ map (\<lambda>j. (j * 32, replicate 32 0xFF)) [0..<n]
    \<and> mem (foldl wipe_step s (map (\<lambda>j. j * 32) [0..<n]))
        = (\<lambda>x. if x < n * 32 then 0xFF else mem s x)
    \<and> read_fails (foldl wipe_step s (map (\<lambda>j. j * 32) [0..<n])) = read_fails s
    \<and> reads (foldl wipe_step s (map (\<lambda>j. j * 32) [0..<n])) = reads s"
  using assms(2)
proof (induction n)
  case 0
  with assms(1) show ?case by simp
next
  case (Suc n)
  let ?t = "foldl wipe_step s (map (\<lambda>j. j * 32) [0..<n])"
  from Suc have ih: "writes_succeed ?t"
    "writes ?t = writes s @ map (\<lambda>j. (j * 32, replicate 32 0xFF)) [0..<n]"
    "mem ?t = (\<lambda>x. if x < n * 32 then 0xFF else mem s x)"
    "read_fails ?t = read_fails s" "reads ?t = reads s"
    by simp_all
  from Suc.prems have b: "n * 32 + 32 \<le> 4096" by simp
  note g = wipe_step_good [OF ih(1) b]
  have f: "foldl wipe_step s (map (\<lambda>j. j * 32) [0..<Suc n]) = wipe_step ?t (n * 32)"
    by simp
  have ws: "writes_succeed (wipe_step ?t (n * 32))"
    using ih(1) g(3) by (rule writes_succeed_grow) (simp add: g(1))
  have m: "mem (wipe_step ?t (n * 32)) = (\<lambda>x. if x < Suc n * 32 then 0xFF else mem s x)"
    unfolding g(2) ih(3) by (rule ext) auto
  show ?case
    unfolding f using ws m g(1,4,5) ih(2,4,5) by simp
qed

lemma verify_wiped_frame:
  "mem (snd (verify_wiped addrs w s)) = mem s \<and> writes (snd (verify_wiped addrs w s)) = writes s"
proof (induction addrs arbitrary: w s)
  case Nil
  show ?case by simp
next
  case (Cons v addrs)
  obtain d t where r: "read_bytes_from_eeprom v 1 s = (d, t)"
    by (cases "read_bytes_from_eeprom v 1 s")
  note q = quiet_read_bytes_eq(1,2) [OF r]
  show ?case
    using Cons.IH [of False "print (VerifyMismatch v (the d)) t"] Cons.IH [of w t] q r
    by (cases d) (auto split: if_splits)
qed

lemma wipe_confirmed:
  assumes "confirmation = ''yes'' \<or> confirmation = ''y''" "writes_succeed s"
  shows "writes (snd (wipe_eeprom confirmation s))
         = writes s @ map (\<lambda>j. (j * 32, replicate 32 0xFF)) [0..<128]"
    and "mem (snd (wipe_eeprom confirmation s)) = (\<lambda>x. if x < 4096 then 0xFF else mem s x)"
proof -
  let ?s1 = "print Wiping (print WipeWarning s)"
  let ?s2 = "foldl wipe_step ?s1 (map (\<lambda>j. j * 32) [0..<128])"
  let ?s3 = "print WipedOK ?s2"
  have ws: "writes_succeed ?s1"
    using assms(2) by (rule writes_succeed_grow) simp_all
  from wipe_strokes [OF ws, of 128]
  have k: "writes ?s2 = writes s @ map (\<lambda>j. (j * 32, replicate 32 0xFF)) [0..<128]"
    "mem ?s2 = (\<lambda>x. if x < 4096 then 0xFF else mem s x)"
    by (simp_all cong: if_cong)
  obtain r t where v: "verify_wiped verification_addresses True ?s3 = (r, t)"
    by (cases "verify_wiped verification_addresses True ?s3")
  from verify_wiped_frame [of verification_addresses True ?s3] v
  have t: "mem t = mem ?s2" "writes t = writes ?s2"
    by simp_all
  have "mem (snd (wipe_eeprom confirmation s)) = mem t \<and>
        writes (snd (wipe_eeprom confirmation s)) = writes t"
    using assms(1) v
    by (cases r) (auto simp: wipe_eeprom_def Let_def range_step_eeprom)
  with t k show "writes (snd (wipe_eeprom confirmation s))
         = writes s @ map (\<lambda>j. (j * 32, replicate 32 0xFF)) [0..<128]"
    and "mem (snd (wipe_eeprom confirmation s)) = (\<lambda>x. if x < 4096 then 0xFF else mem s x)"
    by simp_all
qed

lemma wipe_chunks:
  "concat (map (\<lambda>offset. chunks offset
               (replicate (min PAGE_SIZE (EEPROM_SIZE - offset)) (0xFF :: byte)))
             (range_step EEPROM_SIZE PAGE_SIZE))
   = map (\<lambda>j. (j * 32, replicate 32 0xFF)) [0..<128]"
proof -
  have c: "chunks (j * 32) (replicate (min PAGE_SIZE (EEPROM_SIZE - j * 32)) (0xFF :: byte))
           = [(j * 32, replicate 32 0xFF)]" if "j < 128" for j
  proof -
    from that have "min PAGE_SIZE (EEPROM_SIZE - j * 32) = 32"
      by (simp add: PAGE_SIZE_def EEPROM_SIZE_def)
    then show ?thesis
      by (simp add: chunks_single PAGE_SIZE_def)
  qed
  have "concat (map (\<lambda>offset. chunks offset
               (replicate (min PAGE_SIZE (EEPROM_SIZE - offset)) (0xFF :: byte)))
             (range_step EEPROM_SIZE PAGE_SIZE))
        = concat (map (\<lambda>j. [(j * 32, replicate 32 0xFF)]) [0..<128])"
    unfolding range_step_eeprom map_map comp_def
    by (rule arg_cong [where f = concat], rule map_cong) (simp_all add: c)
  also have "\<dots> = map (\<lambda>j. (j * 32, replicate 32 0xFF)) [0..<128]"
    by (induction "128 :: nat") simp_all
  finally show ?thesis .
qed

section \<open>Lemmas about listing\<close>

lemma list_step_report:
  assumes "reads_succeed s0" "reads_succeed s" "mem s = mem s0"
  shows "reads_succeed (list_step start sz s i)"
    and "mem (list_step start sz s i) = mem s0"
    and "filter is_report (printed (list_step start sz s i))
         = filter is_report (printed s) @ slot_report start sz s0 i"
proof -
  let ?addr = "start + i * sz"
  let ?s1 = "print (Checking (i + 1) ?addr) s"
  obtain r t where l: "load_event_from_eeprom ?addr ?s1 = (r, t)"
    by (cases "load_event_from_eeprom ?addr ?s1")
  have rs1: "reads_succeed ?s1"
    using assms(2) by simp
  have "quiet ?s1 (snd (load_event_from_eeprom ?addr ?s1))"
    by (rule quiet_load)
  then have q: "quiet ?s1 t"
    by (simp only: l snd_conv)
  have "fst (load_event_from_eeprom ?addr ?s1) = fst (load_event_from_eeprom ?addr s0)"
    using assms(1) rs1 by (rule load_depends_on_mem) (simp add: assms(3))
  then have r: "r = fst (load_event_from_eeprom ?addr s0)"
    by (simp only: l fst_conv)
  have st: "list_step start sz s i
      = (case r of Some ev \<Rightarrow> print (EventDetails (i + 1) ev) t
         | None \<Rightarrow> print (NoValidData (i + 1)) t)"
    unfolding list_step_def Let_def l by (simp split: option.split)
  have rt: "reads_succeed t"
    using rs1 by (rule reads_succeed_grow) (use q in \<open>simp_all add: quiet_def\<close>)
  show "reads_succeed (list_step start sz s i)"
    unfolding st using rt by (cases r) simp_all
  show "mem (list_step start sz s i) = mem s0"
    unfolding st using q assms(3) by (cases r) (simp_all add: quiet_def)
  show "filter is_report (printed (list_step start sz s i))
         = filter is_report (printed s) @ slot_report start sz s0 i"
    unfolding st using q
    by (cases r) (simp_all add: quiet_def slot_report_def is_report_def r [symmetric])
qed

lemma list_fold_report:
  assumes "reads_succeed s"
  shows "reads_succeed (foldl (list_step start sz) s [0..<n])
    \<and> mem (foldl (list_step start sz) s [0..<n]) = mem s
    \<and> filter is_report (printed (foldl (list_step start sz) s [0..<n]))
        = filter is_report (printed s) @ concat (map (slot_report start sz s) [0..<n])"
proof (induction n)
  case 0
  with assms show ?case by simp
next
  case (Suc n)
  let ?t = "foldl (list_step start sz) s [0..<n]"
  from Suc have ih: "reads_succeed ?t" "mem ?t = mem s"
    "filter is_report (printed ?t)
       = filter is_report (printed s) @ concat (map (slot_report start sz s) [0..<n])"
    by simp_all
  note g = list_step_report [OF assms ih(1,2), of start sz n]
  show ?case
    using g ih(3) by simp
qed

lemma valid_textD:
  assumes "valid_text lo hi cs"
  obtains bs where "str_encode cs = Inr bs" "lo \<le> length bs" "length bs \<le> hi"
  using assms by (auto simp: valid_text_def split: sum.splits)

lemma valid_event_encoded:
  assumes "valid_event ev"
  shows "\<exists>data. serialize_event rt ev = Encoded data"
proof -
  from assms obtain nb sb db where f:
    "str_encode (event_name ev) = Inr nb" "1 \<le> length nb" "length nb \<le> 50"
    "str_encode (speaker_name ev) = Inr sb" "1 \<le> length sb" "length sb \<le> 50"
    "str_encode (description ev) = Inr db" "1 \<le> length db" "length db \<le> 138"
    "0 \<le> start_time ev" "start_time ev < 2 ^ 32" "0 \<le> end_time ev" "end_time ev < 2 ^ 32"
    unfolding valid_event_def by (elim conjE valid_textD) blast
  show ?thesis
    using serialize_layout [OF f(1,3,4,6,7,9-13)] by blast
qed

lemma two_saves:
  fixes rt :: runtime
  assumes v0: "valid_event e0" and v2: "valid_event e2"
    and ws: "writes_succeed s0" and rs: "reads_succeed s0" and ff: "mem s0 250 = 0xFF"
  defines "s2 \<equiv> snd (save_event_to_eeprom rt e2 500 (snd (save_event_to_eeprom rt e0 0 s0)))"
  shows "reads_succeed s2"
    and "fst (load_event_from_eeprom 0 s2) = Some e0"
    and "fst (load_event_from_eeprom 250 s2) = None"
    and "fst (load_event_from_eeprom 500 s2) = Some e2"
proof -
  let ?s1 = "snd (save_event_to_eeprom rt e0 0 s0)"
  from v0 obtain nb sb db where f0:
    "str_encode (event_name e0) = Inr nb" "1 \<le> length nb" "length nb \<le> 50"
    "str_encode (speaker_name e0) = Inr sb" "1 \<le> length sb" "length sb \<le> 50"
    "str_encode (description e0) = Inr db" "1 \<le> length db" "length db \<le> 138"
    "0 \<le> start_time e0" "start_time e0 < 2 ^ 32" "0 \<le> end_time e0" "end_time e0 < 2 ^ 32"
    unfolding valid_event_def by (elim conjE valid_textD) blast
  from v2 obtain nb' sb' db' where f2:
    "str_encode (event_name e2) = Inr nb'" "1 \<le> length nb'" "length nb' \<le> 50"
    "str_encode (speaker_name e2) = Inr sb'" "1 \<le> length sb'" "length sb' \<le> 50"
    "str_encode (description e2) = Inr db'" "1 \<le> length db'" "length db' \<le> 138"
    "0 \<le> start_time e2" "start_time e2 < 2 ^ 32" "0 \<le> end_time e2" "end_time e2 < 2 ^ 32"
    unfolding valid_event_def by (elim conjE valid_textD) blast
  obtain d0 where enc0: "serialize_event rt e0 = Encoded d0"
    using serialize_layout [OF f0(1,3,4,6,7,9-13)] by blast
  obtain d2 where enc2: "serialize_event rt e2 = Encoded d2"
    using serialize_layout [OF f2(1,3,4,6,7,9-13)] by blast
  from serialize_inversion [OF enc0] have l0: "length d0 \<le> 250" by blast
  from serialize_inversion [OF enc2] have l2: "length d2 \<le> 250" by blast
  have ws1: "writes_succeed ?s1"
    using ws save_Encoded(5) [OF enc0]
    by (rule writes_succeed_grow) (simp add: save_on_good_bus(2) [OF enc0 ws])
  have rs1: "reads_succeed ?s1"
    using rs save_Encoded(4,6) [OF enc0] by (rule reads_succeed_grow)
  show rs2: "reads_succeed s2"
    unfolding s2_def using rs1 save_Encoded(4,6) [OF enc2] by (rule reads_succeed_grow)
  have m1: "mem ?s1 = (\<lambda>x. if 0 \<le> x \<and> x < 0 + length d0 then d0 ! (x - 0) else mem s0 x)"
    using enc0 ws by (rule save_on_good_bus)
  have m2: "mem s2 = (\<lambda>x. if 500 \<le> x \<and> x < 500 + length d2 then d2 ! (x - 500) else mem ?s1 x)"
    unfolding s2_def using enc2 ws1 by (rule save_on_good_bus)
  have h2: "holds (mem s2) 500 d2"
    unfolding s2_def using enc2 ws1 by (rule save_on_good_bus)
  have h0: "holds (mem s2) 0 d0"
    unfolding holds_def
    by (rule nth_equalityI) (use l0 in \<open>simp_all add: m2 m1\<close>)
  have b: "mem s2 250 = 0xFF"
    using l0 ff by (simp add: m2 m1)
  show "fst (load_event_from_eeprom 0 s2) = Some e0"
    using f0 enc0 rs2 h0 by (rule load_serialized)
  show "fst (load_event_from_eeprom 250 s2) = None"
    using b by (rule first_byte_FF)
  show "fst (load_event_from_eeprom 500 s2) = Some e2"
    using f2 enc2 rs2 h2 by (rule load_serialized)
qed

section \<open>Properties of the event store\<close>

text \<open>
  C4. First-byte classification on decode: whatever the rest of the slot holds, a slot
  whose first byte is 0xFF loads as \<open>None\<close>, and the load makes no bus read beyond the
  one-byte read of that first byte; a slot whose first byte is 0 or greater than 50
  (51, say) loads as \<open>None\<close> as well.
\<close>

theorem first_byte_classification:
  "(mem s address = 0xFF \<longrightarrow>
      fst (load_event_from_eeprom address s) = None \<and>
      reads (snd (load_event_from_eeprom address s)) = reads s @ [(address, 1)])
   \<and> (unat (mem s address) = 0 \<or> 50 < unat (mem s address) \<longrightarrow>
      fst (load_event_from_eeprom address s) = None)"
  using first_byte_FF [of s address] first_byte_invalid [of s address] by blast

theorem first_byte_classification_witness:
  "mem (bus_with [0xFF, 8, 67]) 0 = 0xFF
   \<and> fst (load_event_from_eeprom 0 (bus_with [0xFF, 8, 67])) = None
   \<and> reads (snd (load_event_from_eeprom 0 (bus_with [0xFF, 8, 67]))) = [(0, 1)]
   \<and> unat (mem (bus_with [51, 65]) 0) = 51
   \<and> fst (load_event_from_eeprom 0 (bus_with [51, 65])) = None
   \<and> unat (mem (bus_with [0, 65]) 0) = 0
   \<and> fst (load_event_from_eeprom 0 (bus_with [0, 65])) = None"
  using first_byte_classification [of "bus_with [0xFF, 8, 67]" 0]
    first_byte_classification [of "bus_with [51, 65]" 0]
    first_byte_classification [of "bus_with [0, 65]" 0]
  by (simp add: bus_with_def erased_bus_def)

text \<open>
  C1. Round trip: for every event whose name and speaker name encode to 1 to 50 bytes of
  UTF-8, whose description encodes to 1 to 138 bytes, and whose two timestamps lie in
  \<open>[0, 2^32)\<close>, serialisation succeeds, and loading a slot whose content begins with
  the serialised bytes gives back an event equal to the original in all five fields, as
  long as the bus reads succeed. In particular, loading after a save on a working bus
  gives back the event.
\<close>

theorem round_trip:
  assumes "str_encode (event_name ev) = Inr nb" "1 \<le> length nb" "length nb \<le> 50"
    and "str_encode (speaker_name ev) = Inr sb" "1 \<le> length sb" "length sb \<le> 50"
    and "str_encode (description ev) = Inr db" "1 \<le> length db" "length db \<le> 138"
    and "0 \<le> start_time ev" "start_time ev < 2 ^ 32"
    and "0 \<le> end_time ev" "end_time ev < 2 ^ 32"
  shows "\<exists>data. serialize_event rt ev = Encoded data \<and>
           (\<forall>s a. reads_succeed s \<and> holds (mem s) a data
                  \<longrightarrow> fst (load_event_from_eeprom a s) = Some ev) \<and>
           (\<forall>s a. writes_succeed s \<and> reads_succeed s
                  \<longrightarrow> fst (load_event_from_eeprom a (snd (save_event_to_eeprom rt ev a s)))
                      = Some ev)"
proof -
  let ?data = "byte_of (length nb) # nb @ be_bytes 4 (start_time ev)
             @ be_bytes 4 (end_time ev) @ byte_of (length sb) # sb
             @ be_bytes 2 (int (length db)) @ db"
  have enc: "serialize_event rt ev = Encoded ?data"
    using assms(1,3,4,6,7,9-13) by (rule serialize_layout)
  have ld: "fst (load_event_from_eeprom a s) = Some ev"
    if "reads_succeed s" "holds (mem s) a ?data" for s a
    using assms enc that by (rule load_serialized)
  have sl: "fst (load_event_from_eeprom a (snd (save_event_to_eeprom rt ev a s))) = Some ev"
    if "writes_succeed s" "reads_succeed s" for s a
  proof -
    have "reads_succeed (snd (save_event_to_eeprom rt ev a s))"
      using that(2) save_Encoded(4,6) [OF enc] by (rule reads_succeed_grow)
    moreover have "holds (mem (snd (save_event_to_eeprom rt ev a s))) a ?data"
      using enc that(1) by (rule save_on_good_bus)
    ultimately show ?thesis by (rule ld)
  qed
  from enc ld sl show ?thesis by blast
qed

theorem round_trip_witness:
  "serialize_event wrapping ceremony = Encoded ceremony_bytes
   \<and> reads_succeed (bus_with ceremony_bytes)
   \<and> holds (mem (bus_with ceremony_bytes)) 0 ceremony_bytes
   \<and> fst (load_event_from_eeprom 0 (bus_with ceremony_bytes)) = Some ceremony
   \<and> fst (load_event_from_eeprom 500
            (snd (save_event_to_eeprom wrapping ceremony 500 erased_bus))) = Some ceremony"
proof -
  have "\<exists>data. serialize_event wrapping ceremony = Encoded data \<and>
           (\<forall>s a. reads_succeed s \<and> holds (mem s) a data
                  \<longrightarrow> fst (load_event_from_eeprom a s) = Some ceremony) \<and>
           (\<forall>s a. writes_succeed s \<and> reads_succeed s
                  \<longrightarrow> fst (load_event_from_eeprom a (snd (save_event_to_eeprom wrapping ceremony a s)))
                      = Some ceremony)"
    by (rule round_trip [of ceremony "map byte_of (py ''Ceremony'')" "map byte_of (py ''Elliot'')"
          "map byte_of (py ''Badges!'')"])
       (simp_all add: ceremony_def py_def is_scalar_def utf8_cp_def)
  then show ?thesis
    using serialize_ceremony holds_bus_with_ceremony reads_succeed_bus_with [of ceremony_bytes]
      writes_succeed_erased
    by auto
qed

text \<open>
  C9. Concrete scenario. As stated the claim fails: the event
  \<^verbatim>\<open>Event("Ceremony", 1730649600, 1730653200, "Elliot", "Badges!")\<close> is serialised to 33
  bytes, not 34, since \<^verbatim>\<open>"Badges!"\<close> has 7 bytes.
\<close>

theorem ceremony_length_counterexample:
  "serialize_event wrapping ceremony = Encoded ceremony_bytes \<and> length ceremony_bytes \<noteq> 34"
  using serialize_ceremony by (simp add: ceremony_bytes_def)

text \<open>
  C9, amended. The event is serialised to exactly 33 bytes (1+8+4+4+1+6+2+7), and saving
  it at slot 0 and loading slot 0 again gives an event with the same five fields, on a
  bus whose transfers succeed.
\<close>

theorem ceremony_scenario:
  assumes "writes_succeed s" "reads_succeed s"
  shows "serialize_event rt ceremony = Encoded ceremony_bytes \<and> length ceremony_bytes = 33 \<and>
         fst (load_event_from_eeprom 0 (snd (save_event_to_eeprom rt ceremony 0 s)))
         = Some ceremony"
proof -
  have "fst (load_event_from_eeprom 0 (snd (save_event_to_eeprom rt ceremony 0 s)))
        = Some ceremony"
    using ceremony_fields(1) _ _ ceremony_fields(2) _ _ ceremony_fields(3) _ _ _ _ _ _ assms
    by (rule save_then_load) (simp_all add: py_def ceremony_def)
  then show ?thesis
    using serialize_ceremony by (simp add: ceremony_bytes_def)
qed

theorem ceremony_scenario_witness:
  "writes_succeed erased_bus \<and> reads_succeed erased_bus \<and>
   serialize_event wrapping ceremony = Encoded ceremony_bytes \<and> length ceremony_bytes = 33 \<and>
   fst (load_event_from_eeprom 0 (snd (save_event_to_eeprom wrapping ceremony 0 erased_bus)))
   = Some ceremony"
  using ceremony_scenario [OF writes_succeed_erased] writes_succeed_erased by simp




text \<open>
  C5. A zero-length text field. The claim is what the store needs, and the code does not
  do it: \<^verbatim>\<open>save_event_to_eeprom\<close> checks the upper bounds only. The event
  \<^verbatim>\<open>Event("Ceremony", 1730649600, 1730653200, "Elliot", "")\<close> is serialised with a
  description length of 0 and written to the device, save prints that the event was
  saved and verified, and \<^verbatim>\<open>load_event_from_eeprom\<close>, which does treat a length of 0 as
  invalid, then returns \<open>None\<close> for that slot.
\<close>

theorem empty_description_saved_not_loaded:
  "serialize_event wrapping empty_description = Encoded empty_description_bytes
   \<and> writes (snd (save_event_to_eeprom wrapping empty_description 0 erased_bus))
       = [(0, empty_description_bytes)]
   \<and> printed (snd (save_event_to_eeprom wrapping empty_description 0 erased_bus))
       = [BytesWritten, EventSaved, VerificationSuccessful]
   \<and> fst (load_event_from_eeprom 0 (snd (save_event_to_eeprom wrapping empty_description 0 erased_bus)))
       = None"
proof -
  note enc = serialize_empty_description [of wrapping]
  let ?s = "snd (save_event_to_eeprom wrapping empty_description 0 erased_bus)"
  have w: "writes ?s = [(0, empty_description_bytes)]"
  proof -
    have "chunks 0 empty_description_bytes = [(0, empty_description_bytes)]"
      by (rule chunks_single) (simp_all add: empty_description_bytes_def PAGE_SIZE_def)
    with save_on_good_bus(2) [OF enc writes_succeed_erased(1), of 0] show ?thesis
      by (simp add: erased_bus_def)
  qed
  have p: "printed ?s = [BytesWritten, EventSaved, VerificationSuccessful]"
    using save_verified [OF enc writes_succeed_erased(1), of 0]
    by (simp add: erased_bus_def)
  have rs: "reads_succeed ?s"
    using writes_succeed_erased(2) save_Encoded(4,6) [OF enc] by (rule reads_succeed_grow)
  have eq: "byte_of (length (map byte_of (py ''Ceremony''))) # map byte_of (py ''Ceremony'')
       @ be_bytes 4 1730649600 @ be_bytes 4 1730653200
       @ byte_of (length (map byte_of (py ''Elliot''))) # map byte_of (py ''Elliot'')
       @ be_bytes 2 0 @ [] = empty_description_bytes"
    by (simp add: empty_description_bytes_def py_def byte_of_def be_bytes_4 be_bytes_2)
  have "holds (mem ?s) 0 empty_description_bytes"
    using enc writes_succeed_erased(1) by (rule save_on_good_bus)
  then have h: "holds (mem ?s) 0
      (byte_of (length (map byte_of (py ''Ceremony''))) # map byte_of (py ''Ceremony'')
       @ be_bytes 4 1730649600 @ be_bytes 4 1730653200
       @ byte_of (length (map byte_of (py ''Elliot''))) # map byte_of (py ''Elliot'')
       @ be_bytes 2 0 @ [])"
    by (simp only: eq)
  have "fst (load_event_from_eeprom 0 ?s) = None"
    using rs h
  proof (rule load_layout_empty_description)
    show "bytes_decode (map byte_of (py ''Ceremony'')) = Some (py ''Ceremony'')"
      using ceremony_fields(1) by (simp add: ceremony_def bytes_decode_str_encode)
    show "bytes_decode (map byte_of (py ''Elliot'')) = Some (py ''Elliot'')"
      using ceremony_fields(2) by (simp add: ceremony_def bytes_decode_str_encode)
  qed (simp_all add: py_def)
  with enc w p show ?thesis by simp
qed

text \<open>
  C6. No write on a validation failure: an event that the bound checks of save turn away
  leads to one printed message and to no transfer on the bus, so that the device content
  is unchanged; and no transfer happens either whenever a text is longer than its bound.
\<close>

theorem rejected_save_writes_nothing:
  "(serialize_event rt ev = Rejected m \<longrightarrow>
      save_event_to_eeprom rt ev a s = (Inr (), print m s)) \<and>
   (\<forall>nb. str_encode (event_name ev) = Inr nb \<and> 50 < length nb \<longrightarrow>
      serialize_event rt ev = Rejected NameTooLong) \<and>
   ((\<exists>nb. str_encode (event_name ev) = Inr nb \<and> 50 < length nb) \<or>
    (\<exists>sb. str_encode (speaker_name ev) = Inr sb \<and> 50 < length sb) \<or>
    (\<exists>db. str_encode (description ev) = Inr db \<and> 138 < length db) \<or>
    (\<exists>n. serialize_event rt ev = Rejected (SizeExceeds n)) \<longrightarrow>
      writes (snd (save_event_to_eeprom rt ev a s)) = writes s \<and>
      reads (snd (save_event_to_eeprom rt ev a s)) = reads s \<and>
      mem (snd (save_event_to_eeprom rt ev a s)) = mem s)"
proof (intro conjI impI allI)
  assume "serialize_event rt ev = Rejected m"
  then show "save_event_to_eeprom rt ev a s = (Inr (), print m s)"
    by (rule save_Rejected)
next
  fix nb
  assume "str_encode (event_name ev) = Inr nb \<and> 50 < length nb"
  then show "serialize_event rt ev = Rejected NameTooLong"
    by (simp add: serialize_event_def)
next
  assume over: "(\<exists>nb. str_encode (event_name ev) = Inr nb \<and> 50 < length nb) \<or>
    (\<exists>sb. str_encode (speaker_name ev) = Inr sb \<and> 50 < length sb) \<or>
    (\<exists>db. str_encode (description ev) = Inr db \<and> 138 < length db) \<or>
    (\<exists>n. serialize_event rt ev = Rejected (SizeExceeds n))"
  have no: "\<forall>data. serialize_event rt ev \<noteq> Encoded data"
  proof (intro allI notI)
    fix data
    assume "serialize_event rt ev = Encoded data"
    from serialize_inversion [OF this] over this show False
      by auto
  qed
  from save_not_Encoded [OF no]
  show "writes (snd (save_event_to_eeprom rt ev a s)) = writes s"
    and "reads (snd (save_event_to_eeprom rt ev a s)) = reads s"
    and "mem (snd (save_event_to_eeprom rt ev a s)) = mem s"
    by simp_all
qed

theorem rejected_save_writes_nothing_witness:
  "str_encode (event_name long_name) = Inr (map byte_of (replicate 51 65))
   \<and> 50 < length (map byte_of (replicate 51 (65::nat)))
   \<and> serialize_event wrapping long_name = Rejected NameTooLong
   \<and> save_event_to_eeprom wrapping long_name 0 erased_bus = (Inr (), print NameTooLong erased_bus)
   \<and> writes (snd (save_event_to_eeprom wrapping long_name 0 erased_bus)) = []
   \<and> reads (snd (save_event_to_eeprom wrapping long_name 0 erased_bus)) = []
   \<and> mem (snd (save_event_to_eeprom wrapping long_name 0 erased_bus)) = mem erased_bus"
proof -
  have n: "str_encode (event_name long_name) = Inr (map byte_of (replicate 51 65))"
    by (simp add: long_name_def str_encode_ascii)
  have l: "50 < length (map byte_of (replicate 51 (65::nat)))"
    by simp
  from rejected_save_writes_nothing [of wrapping long_name NameTooLong 0 erased_bus] n l
  show ?thesis
    by (auto simp: erased_bus_def)
qed

text \<open>
  C3. Exact fit: an event whose name and speaker name have 50 bytes and whose description
  has 138 bytes (the timestamps being 32-bit values) is serialised to exactly 250 bytes
  and is accepted by save, which goes on to write them, in 8 pages on a working bus; the
  same event with a description of 139 bytes is turned away with the message for a
  description that is too long, and nothing is written.
\<close>

theorem exact_fit:
  assumes "str_encode (event_name ev) = Inr nb" "length nb = 50"
    and "str_encode (speaker_name ev) = Inr sb" "length sb = 50"
    and "str_encode (description ev) = Inr db" "length db = 138"
    and "0 \<le> start_time ev" "start_time ev < 2 ^ 32"
    and "0 \<le> end_time ev" "end_time ev < 2 ^ 32"
    and "str_encode d' = Inr db'" "length db' = 139"
  shows "\<exists>data. serialize_event rt ev = Encoded data \<and> length data = 250 \<and>
           fst (save_event_to_eeprom rt ev a s) = Inr () \<and>
           EventSaved \<in> set (printed (snd (save_event_to_eeprom rt ev a s))) \<and>
           (writes_succeed s \<longrightarrow>
              writes (snd (save_event_to_eeprom rt ev a s)) = writes s @ chunks a data \<and>
              length (chunks a data) = 8 \<and>
              holds (mem (snd (save_event_to_eeprom rt ev a s))) a data) \<and>
           serialize_event rt (ev\<lparr>description := d'\<rparr>) = Rejected DescriptionTooLong \<and>
           save_event_to_eeprom rt (ev\<lparr>description := d'\<rparr>) a s
             = (Inr (), print DescriptionTooLong s) \<and>
           writes (snd (save_event_to_eeprom rt (ev\<lparr>description := d'\<rparr>) a s)) = writes s \<and>
           mem (snd (save_event_to_eeprom rt (ev\<lparr>description := d'\<rparr>) a s)) = mem s"
proof -
  let ?data = "byte_of (length nb) # nb @ be_bytes 4 (start_time ev)
             @ be_bytes 4 (end_time ev) @ byte_of (length sb) # sb
             @ be_bytes 2 (int (length db)) @ db"
  have enc: "serialize_event rt ev = Encoded ?data"
    using assms(1-10) by (intro serialize_layout) simp_all
  have len: "length ?data = 250"
    using assms(2,4,6) by (simp add: length_be_bytes)
  have rej: "serialize_event rt (ev\<lparr>description := d'\<rparr>) = Rejected DescriptionTooLong"
    using assms by (simp add: serialize_event_def to_bytes_big_def Let_def)
  have "fst (save_event_to_eeprom rt ev a s) = Inr ()"
    using enc by (rule save_Encoded)
  moreover have "EventSaved \<in> set (printed (snd (save_event_to_eeprom rt ev a s)))"
    using enc by (rule save_prints_saved)
  moreover have "writes (snd (save_event_to_eeprom rt ev a s)) = writes s @ chunks a ?data"
    and "holds (mem (snd (save_event_to_eeprom rt ev a s))) a ?data" if "writes_succeed s"
    using save_on_good_bus(1,2) [OF enc that] by simp_all
  moreover have "length (chunks a ?data) = 8"
    by (simp only: length_chunks len)
  moreover note save_Rejected [OF rej, of a s]
  ultimately show ?thesis
    using enc len rej by (intro exI [of _ ?data]) simp
qed

theorem exact_fit_witness:
  "serialize_event wrapping full_event = Encoded full_bytes \<and> length full_bytes = 250 \<and>
   fst (save_event_to_eeprom wrapping full_event 0 erased_bus) = Inr () \<and>
   writes_succeed erased_bus \<and>
   writes (snd (save_event_to_eeprom wrapping full_event 0 erased_bus)) = chunks 0 full_bytes \<and>
   length (chunks 0 full_bytes) = 8 \<and>
   holds (mem (snd (save_event_to_eeprom wrapping full_event 0 erased_bus))) 0 full_bytes \<and>
   str_encode (replicate 139 67) = Inr (map byte_of (replicate 139 67)) \<and>
   length (map byte_of (replicate 139 (67::nat))) = 139 \<and>
   save_event_to_eeprom wrapping (full_event\<lparr>description := replicate 139 67\<rparr>) 0 erased_bus
     = (Inr (), print DescriptionTooLong erased_bus)"
proof -
  have "\<exists>data. serialize_event wrapping full_event = Encoded data \<and> length data = 250 \<and>
           fst (save_event_to_eeprom wrapping full_event 0 erased_bus) = Inr () \<and>
           EventSaved \<in> set (printed (snd (save_event_to_eeprom wrapping full_event 0 erased_bus))) \<and>
           (writes_succeed erased_bus \<longrightarrow>
              writes (snd (save_event_to_eeprom wrapping full_event 0 erased_bus))
                = writes erased_bus @ chunks 0 data \<and>
              length (chunks 0 data) = 8 \<and>
              holds (mem (snd (save_event_to_eeprom wrapping full_event 0 erased_bus))) 0 data) \<and>
           serialize_event wrapping (full_event\<lparr>description := replicate 139 67\<rparr>)
             = Rejected DescriptionTooLong \<and>
           save_event_to_eeprom wrapping (full_event\<lparr>description := replicate 139 67\<rparr>) 0 erased_bus
             = (Inr (), print DescriptionTooLong erased_bus) \<and>
           writes (snd (save_event_to_eeprom wrapping
              (full_event\<lparr>description := replicate 139 67\<rparr>) 0 erased_bus)) = writes erased_bus \<and>
           mem (snd (save_event_to_eeprom wrapping
              (full_event\<lparr>description := replicate 139 67\<rparr>) 0 erased_bus)) = mem erased_bus"
    by (rule exact_fit [of full_event "map byte_of (replicate 50 65)"
          "map byte_of (replicate 50 66)" "map byte_of (replicate 138 67)"
          "replicate 139 67" "map byte_of (replicate 139 67)"])
       (simp_all add: full_event_def str_encode_ascii)
  then show ?thesis
    using serialize_full_event [of wrapping] writes_succeed_erased(1)
    by (auto simp: str_encode_ascii erased_bus_def)
qed

text \<open>
  C2. A failing page write. As stated the claim fails: save hands no failure to its
  caller. On a bus whose second write fails, saving the 33-byte event makes the two
  write attempts, prints the failure of the write, then prints that the bytes were
  written and that the event was saved, and returns as it does after a successful save.
\<close>

theorem failed_write_counterexample:
  "write_fails flaky_bus 1 \<and>
   writes (snd (save_event_to_eeprom wrapping ceremony 0 flaky_bus))
     = [(0, take 32 ceremony_bytes), (32, drop 32 ceremony_bytes)] \<and>
   take 3 (printed (snd (save_event_to_eeprom wrapping ceremony 0 flaky_bus)))
     = [FailedToWrite, BytesWritten, EventSaved] \<and>
   fst (save_event_to_eeprom wrapping ceremony 0 flaky_bus) = Inr () \<and>
   fst (save_event_to_eeprom wrapping ceremony 0 erased_bus) = Inr ()"
proof -
  note enc = serialize_ceremony [of wrapping]
  have c: "chunks 0 ceremony_bytes = [(0, take 32 ceremony_bytes), (32, drop 32 ceremony_bytes)]"
    using chunks_two [of ceremony_bytes 0]
    by (simp add: PAGE_SIZE_def ceremony_bytes_def)
  have f: "writes (write_chunks 0 ceremony_bytes flaky_bus)
            = writes flaky_bus @ take (Suc 1) (chunks 0 ceremony_bytes)
         \<and> printed (write_chunks 0 ceremony_bytes flaky_bus) = printed flaky_bus @ [FailedToWrite]"
    by (rule wc_first_fail) (simp_all add: c flaky_bus_def erased_bus_def)
  have w: "writes (snd (save_event_to_eeprom wrapping ceremony 0 flaky_bus))
     = [(0, take 32 ceremony_bytes), (32, drop 32 ceremony_bytes)]"
    using f by (simp add: save_Encoded(3) [OF enc] c flaky_bus_def erased_bus_def)
  have p: "take 3 (printed (snd (save_event_to_eeprom wrapping ceremony 0 flaky_bus)))
     = [FailedToWrite, BytesWritten, EventSaved]"
  proof -
    from save_printed [OF enc, of 0 flaky_bus] f
    obtain rest where "printed (snd (save_event_to_eeprom wrapping ceremony 0 flaky_bus))
        = printed flaky_bus @ [FailedToWrite] @ BytesWritten # EventSaved # rest"
      by auto
    then show ?thesis
      by (simp add: flaky_bus_def erased_bus_def)
  qed
  from w p save_Encoded(1) [OF enc] show ?thesis
    by (simp add: flaky_bus_def)
qed

text \<open>
  C2, amended. For every save whose paged write fails on some page, the pages after it
  are not attempted: the bus sees the write attempts up to and including the failing
  one, and no other. The failure is caught inside \<^verbatim>\<open>write_bytes_to_eeprom\<close>, which prints
  that the write failed, and save returns \<^verbatim>\<open>None\<close> to its caller, as on every other path,
  with no failure value.
\<close>

theorem failed_chunk_stops_write:
  assumes "serialize_event rt ev = Encoded data"
    and "j < length (chunks a data)"
    and "write_fails s (length (writes s) + j)"
    and "\<forall>i<j. \<not> write_fails s (length (writes s) + i)"
  shows "writes (snd (save_event_to_eeprom rt ev a s)) = writes s @ take (Suc j) (chunks a data)
         \<and> (\<exists>rest. printed (snd (save_event_to_eeprom rt ev a s))
                    = printed s @ FailedToWrite # rest)
         \<and> fst (save_event_to_eeprom rt ev a s) = Inr ()"
proof -
  from wc_first_fail [OF assms(2-4)]
  have w: "writes (write_chunks a data s) = writes s @ take (Suc j) (chunks a data)"
    and p: "printed (write_chunks a data s) = printed s @ [FailedToWrite]"
    by simp_all
  let ?p = "printed (snd (save_event_to_eeprom rt ev a s))"
  from save_printed [OF assms(1), of a s] p
  have "\<exists>rest. ?p = printed s @ FailedToWrite # rest"
    by auto
  with w save_Encoded(1,3) [OF assms(1), of a s] show ?thesis
    by simp
qed

theorem failed_chunk_stops_write_witness:
  "serialize_event wrapping full_event = Encoded full_bytes \<and>
   1 < length (chunks 0 full_bytes) \<and> length (chunks 0 full_bytes) = 8 \<and>
   write_fails flaky_bus (length (writes flaky_bus) + 1) \<and>
   \<not> write_fails flaky_bus (length (writes flaky_bus) + 0) \<and>
   writes (snd (save_event_to_eeprom wrapping full_event 0 flaky_bus))
     = take 2 (chunks 0 full_bytes) \<and>
   length (writes (snd (save_event_to_eeprom wrapping full_event 0 flaky_bus))) = 2 \<and>
   fst (save_event_to_eeprom wrapping full_event 0 flaky_bus) = Inr ()"
proof -
  note enc = serialize_full_event [of wrapping]
  have l: "length (chunks 0 full_bytes) = 8"
    by (simp only: length_chunks length_full_bytes)
  have j: "1 < length (chunks 0 full_bytes)"
    by (simp add: l)
  have f: "write_fails flaky_bus (length (writes flaky_bus) + 1)"
    by (simp add: flaky_bus_def erased_bus_def)
  have g: "\<forall>i<1. \<not> write_fails flaky_bus (length (writes flaky_bus) + i)"
    by (simp add: flaky_bus_def erased_bus_def)
  from failed_chunk_stops_write [OF enc j f g] enc l f g show ?thesis
    by (simp add: flaky_bus_def erased_bus_def numeral_2_eq_2)
qed

text \<open>
  C7. Wipe: a confirmed wipe goes through the address range \<open>[0, 4096)\<close> in strokes of one
  page, each a buffer of \<open>min(32, 4096 - offset)\<close> bytes 0xFF handed to
  \<^verbatim>\<open>write_bytes_to_eeprom\<close>, the paged write that save uses; if every write on the bus
  succeeds, these 128 page writes are all the bus sees, every byte of the device is 0xFF
  afterwards, and a load of any of the slots 0 to 15 returns \<open>None\<close>.
\<close>

theorem wipe_erases_device:
  assumes "confirmation = ''yes'' \<or> confirmation = ''y''" "writes_succeed s"
  shows "writes (snd (wipe_eeprom confirmation s))
         = writes s @ concat (map (\<lambda>offset. chunks offset
               (replicate (min PAGE_SIZE (EEPROM_SIZE - offset)) 0xFF))
             (range_step EEPROM_SIZE PAGE_SIZE))
       \<and> length (range_step EEPROM_SIZE PAGE_SIZE) = 128
       \<and> (\<forall>a<EEPROM_SIZE. mem (snd (wipe_eeprom confirmation s)) a = 0xFF)
       \<and> (\<forall>i<16. fst (load_event_from_eeprom (i * 250) (snd (wipe_eeprom confirmation s)))
                   = None)"
proof -
  let ?t = "snd (wipe_eeprom confirmation s)"
  note w = wipe_confirmed [OF assms]
  have 1: "writes ?t = writes s @ concat (map (\<lambda>offset. chunks offset
               (replicate (min PAGE_SIZE (EEPROM_SIZE - offset)) 0xFF))
             (range_step EEPROM_SIZE PAGE_SIZE))"
    using w(1) by (simp only: wipe_chunks)
  have 2: "\<forall>a<EEPROM_SIZE. mem ?t a = 0xFF"
    by (simp add: w(2) EEPROM_SIZE_def)
  have 3: "\<forall>i<16. fst (load_event_from_eeprom (i * 250) ?t) = None"
  proof (intro allI impI)
    fix i :: nat
    assume "i < 16"
    then have "mem ?t (i * 250) = 0xFF"
      by (simp add: w(2))
    then show "fst (load_event_from_eeprom (i * 250) ?t) = None"
      by (rule first_byte_FF)
  qed
  from 1 2 3 show ?thesis
    by (simp add: range_step_eeprom)
qed

theorem wipe_erases_device_witness:
  "writes_succeed (bus_with ceremony_bytes) \<and>
   mem (bus_with ceremony_bytes) 0 = 8 \<and>
   length (writes (snd (wipe_eeprom ''yes'' (bus_with ceremony_bytes)))) = 128 \<and>
   mem (snd (wipe_eeprom ''yes'' (bus_with ceremony_bytes))) 0 = 0xFF \<and>
   mem (snd (wipe_eeprom ''yes'' (bus_with ceremony_bytes))) 4095 = 0xFF \<and>
   fst (load_event_from_eeprom 0 (snd (wipe_eeprom ''yes'' (bus_with ceremony_bytes)))) = None \<and>
   fst (load_event_from_eeprom 3750 (snd (wipe_eeprom ''yes'' (bus_with ceremony_bytes))))
     = None"
proof -
  let ?t = "snd (wipe_eeprom ''yes'' (bus_with ceremony_bytes))"
  have ws: "writes_succeed (bus_with ceremony_bytes)"
    by (simp add: writes_succeed_def bus_with_def erased_bus_def)
  have y: "''yes'' = ''yes'' \<or> ''yes'' = ''y''"
    by simp
  have l: "length (concat (map (\<lambda>offset. chunks offset
               (replicate (min PAGE_SIZE (EEPROM_SIZE - offset)) (0xFF :: byte)))
             (range_step EEPROM_SIZE PAGE_SIZE))) = 128"
    by (simp only: wipe_chunks) simp
  note t = wipe_erases_device [OF y ws]
  from t have w: "length (writes ?t) = 128"
    by (simp add: l bus_with_def erased_bus_def)
  from t have m: "\<forall>a<EEPROM_SIZE. mem ?t a = 0xFF"
    and d: "\<forall>i<16. fst (load_event_from_eeprom (i * 250) ?t) = None"
    by blast+
  from m have m0: "mem ?t 0 = 0xFF" and m1: "mem ?t 4095 = 0xFF"
    by (simp_all add: EEPROM_SIZE_def)
  from d [rule_format, of 0] d [rule_format, of 15]
  have d0: "fst (load_event_from_eeprom 0 ?t) = None"
    and d1: "fst (load_event_from_eeprom 3750 ?t) = None"
    by simp_all
  have b: "mem (bus_with ceremony_bytes) 0 = 8"
    by (simp add: bus_with_def ceremony_bytes_def)
  from ws b w m0 m1 d0 d1 show ?thesis
    by blast
qed

text \<open>
  C8. Enumeration order and filtering: \<^verbatim>\<open>list_all_events\<close> visits the slots \<open>0\<close> to
  \<open>max_events - 1\<close> in increasing order, at the addresses \<open>start_address + i * event_size\<close>
  (250 by default), loads each of them once, and prints the details of exactly the
  slots for which the load returned an event, under the number \<open>i + 1\<close>; for the
  others it prints that no valid data was found. In particular, after a valid event
  was saved at slot 0 and another one at slot 2, slot 1 being erased, listing three
  slots prints the events of the slots 0 and 2, in that order, and none for slot 1.
\<close>

theorem listing_order_and_filter:
  "(reads_succeed s \<longrightarrow>
      filter is_report (printed (list_all_events start_address max_events event_size s))
      = filter is_report (printed s)
        @ concat (map (slot_report start_address event_size s) [0..<max_events])) \<and>
   (valid_event e0 \<and> valid_event e2 \<and> writes_succeed s0 \<and> reads_succeed s0 \<and>
    mem s0 250 = 0xFF \<and>
    s2 = snd (save_event_to_eeprom rt e2 500 (snd (save_event_to_eeprom rt e0 0 s0))) \<longrightarrow>
      filter is_report (printed (list_all_events 0 3 250 s2))
      = filter is_report (printed s2)
        @ [Checking 1 0, EventDetails 1 e0, Checking 2 250, NoValidData 2,
           Checking 3 500, EventDetails 3 e2])"
proof (intro conjI impI)
  assume rs: "reads_succeed s"
  then have "reads_succeed (print ListingAll s)"
    by simp
  from list_fold_report [OF this, of start_address event_size max_events]
  have "filter is_report (printed (list_all_events start_address max_events event_size s))
      = filter is_report (printed s)
        @ concat (map (slot_report start_address event_size (print ListingAll s))
            [0..<max_events])"
    by (simp add: list_all_events_def is_report_def)
  moreover have "slot_report start_address event_size (print ListingAll s)
                 = slot_report start_address event_size s"
    using load_depends_on_mem [OF rs, of "print ListingAll s"] rs
    by (intro ext) (simp add: slot_report_def)
  ultimately show "filter is_report
       (printed (list_all_events start_address max_events event_size s))
      = filter is_report (printed s)
        @ concat (map (slot_report start_address event_size s) [0..<max_events])"
    by simp
next
  assume a: "valid_event e0 \<and> valid_event e2 \<and> writes_succeed s0 \<and> reads_succeed s0 \<and>
    mem s0 250 = 0xFF \<and>
    s2 = snd (save_event_to_eeprom rt e2 500 (snd (save_event_to_eeprom rt e0 0 s0)))"
  then have t: "reads_succeed s2" "fst (load_event_from_eeprom 0 s2) = Some e0"
    "fst (load_event_from_eeprom 250 s2) = None" "fst (load_event_from_eeprom 500 s2) = Some e2"
    using two_saves [of e0 e2 s0 rt] by simp_all
  from t(1) have "reads_succeed (print ListingAll s2)"
    by simp
  from list_fold_report [OF this, of 0 250 3]
  have "filter is_report (printed (list_all_events 0 3 250 s2))
      = filter is_report (printed s2)
        @ concat (map (slot_report 0 250 (print ListingAll s2)) [0..<3])"
    by (simp add: list_all_events_def is_report_def)
  moreover have "slot_report 0 250 (print ListingAll s2) = slot_report 0 250 s2"
    using load_depends_on_mem [OF t(1), of "print ListingAll s2"] t(1)
    by (intro ext) (simp add: slot_report_def)
  moreover have "[0..<3] = [0, 1, 2]"
    by (simp add: upt_conv_Cons del: upt_Suc)
  ultimately show "filter is_report (printed (list_all_events 0 3 250 s2))
      = filter is_report (printed s2)
        @ [Checking 1 0, EventDetails 1 e0, Checking 2 250, NoValidData 2,
           Checking 3 500, EventDetails 3 e2]"
    using t(2-4) by (simp add: slot_report_def)
qed

theorem listing_order_and_filter_witness:
  "reads_succeed erased_bus \<and> writes_succeed erased_bus \<and> mem erased_bus 250 = 0xFF \<and>
   valid_event ceremony \<and> valid_event closing \<and> ceremony \<noteq> closing \<and>
   filter is_report (printed (list_all_events 0 3 250 erased_bus))
     = [Checking 1 0, NoValidData 1, Checking 2 250, NoValidData 2, Checking 3 500,
        NoValidData 3] \<and>
   filter is_report (printed (list_all_events 0 3 250
       (snd (save_event_to_eeprom wrapping closing 500
          (snd (save_event_to_eeprom wrapping ceremony 0 erased_bus))))))
     = [Checking 1 0, EventDetails 1 ceremony, Checking 2 250, NoValidData 2,
        Checking 3 500, EventDetails 3 closing]"
proof -
  let ?s2 = "snd (save_event_to_eeprom wrapping closing 500
          (snd (save_event_to_eeprom wrapping ceremony 0 erased_bus)))"
  have vc: "valid_event ceremony"
    by (simp add: valid_event_def valid_text_def ceremony_def py_def is_scalar_def utf8_cp_def)
  have vl: "valid_event closing"
    by (simp add: valid_event_def valid_text_def closing_def py_def is_scalar_def utf8_cp_def)
  have ne: "ceremony \<noteq> closing"
    by (simp add: ceremony_def closing_def py_def)
  have ff: "mem erased_bus 250 = 0xFF"
    by (simp add: erased_bus_def)
  have e: "fst (load_event_from_eeprom a erased_bus) = None" for a
    by (rule first_byte_FF) (simp add: erased_bus_def)
  have p0: "filter is_report (printed erased_bus) = []"
    by (simp add: erased_bus_def)
  have enc0: "serialize_event wrapping ceremony = Encoded ceremony_bytes"
    by (rule serialize_ceremony)
  obtain d2 where enc2: "serialize_event wrapping closing = Encoded d2"
    using valid_event_encoded [OF vl] by blast
  let ?s1 = "snd (save_event_to_eeprom wrapping ceremony 0 erased_bus)"
  have ws1: "writes_succeed ?s1"
    using writes_succeed_erased(1) save_Encoded(5) [OF enc0]
    by (rule writes_succeed_grow)
       (simp add: save_on_good_bus(2) [OF enc0 writes_succeed_erased(1)])
  have rf: "\<not> read_fails ?s1 (length (reads ?s1))"
    by (simp add: save_Encoded(4) [OF enc0] erased_bus_def)
  have "printed ?s1 = [BytesWritten, EventSaved, VerificationSuccessful]"
    using save_verified [OF enc0 writes_succeed_erased(1), of 0]
    by (simp add: erased_bus_def)
  with save_verified [OF enc2 ws1 rf, of 500]
  have "filter is_report (printed ?s2) = []"
    by (simp add: is_report_def)
  with listing_order_and_filter [of erased_bus 0 3 250 ceremony closing erased_bus ?s2 wrapping]
    vc vl ne ff e p0 writes_succeed_erased
  show ?thesis
    by (simp add: slot_report_def upt_conv_Cons del: upt_Suc)
qed

end
